theory Spec2Isabelle
  imports Main "HOL-Library.Char_ord" "HOL-Library.List_Lexorder"
begin

section \<open>Data model of \<open>markov::chain\<close>\<close>

text \<open>
  \<open>chain::prefix\<close> is \<open>std::deque<std::string>\<close>: a list of strings. The class derives
  from \<open>std::map<std::deque<std::string>, std::vector<std::string>>\<close>. An ordered map
  enumerates its entries by ascending key, and keys are unique; the inherited map is
  modelled by the list of its entries in enumeration order. The key order is the one of
  \<open>operator<\<close> on deques of strings: lexicographic on the tokens, each token compared
  lexicographically by byte value (\<open>HOL-Library.List_Lexorder\<close> over
  \<open>HOL-Library.Char_ord\<close>).
\<close>

type_synonym prefix = "string list"

type_synonym cmap = "(prefix \<times> string list) list"

text \<open>The representation invariant of the ordered map: keys strictly ascending.\<close>

definition map_ok :: "cmap \<Rightarrow> bool" where
  "map_ok m = sorted_wrt (<) (map fst m)"

text \<open>
  The members \<open>current_prefix\<close> and \<open>prefix_len\<close>, and the inherited map. \<open>prefix_len\<close>
  is a \<open>std::size_t\<close>; it is only assigned and compared for equality with container
  sizes, no arithmetic is done on it, so it is a natural number here.
\<close>

record chain =
  entries :: cmap
  current_prefix :: prefix
  prefix_len :: nat

text \<open>The constructor \<open>chain(std::size_t len = 2)\<close>.\<close>

definition new_chain :: "nat \<Rightarrow> chain" where
  "new_chain len = \<lparr>entries = [], current_prefix = [], prefix_len = len\<rparr>"

text \<open>
  The ways a call can leave the defined behaviour of the language or end by an exception:
  \<open>x % 0\<close> on integers, \<open>pop_front()\<close> on an empty deque, and the
  \<open>std::out_of_range\<close> thrown by \<open>deque::at\<close>.
\<close>

datatype fault = Modulo_By_Zero | Pop_Front_Empty | Out_Of_Range

subsection \<open>Map access\<close>

text \<open>\<open>this->find(pref) != this->end()\<close>, the body of \<open>isValidPrefix\<close>.\<close>

definition isValidPrefix :: "chain \<Rightarrow> prefix \<Rightarrow> bool" where
  "isValidPrefix c pref = (map_of (entries c) pref \<noteq> None)"

text \<open>
  \<open>(*this)[k].push_back(s)\<close>: \<open>operator[]\<close> finds the entry of \<open>k\<close> or inserts an empty
  vector for it at its place in the key order; the token goes to the back of the vector.
\<close>

fun push_at :: "prefix \<Rightarrow> string \<Rightarrow> cmap \<Rightarrow> cmap" where
  "push_at k s [] = [(k, [s])]"
| "push_at k s ((k', v) # m) =
     (if k = k' then (k', v @ [s]) # m
      else if k < k' then (k, [s]) # (k', v) # m
      else (k', v) # push_at k s m)"

section \<open>Training\<close>

text \<open>\<open>chain::add(const std::string&)\<close>.\<close>

definition add :: "string \<Rightarrow> chain \<Rightarrow> fault + chain" where
  "add s c =
     (if length (current_prefix c) = prefix_len c then
        (case current_prefix c of
           [] \<Rightarrow> Inl Pop_Front_Empty
         | x # rest \<Rightarrow>
             Inr (c\<lparr>entries := push_at (current_prefix c) s (entries c),
                    current_prefix := rest @ [s]\<rparr>))
      else Inr (c\<lparr>current_prefix := current_prefix c @ [s]\<rparr>))"

text \<open>Feeding a sequence of tokens through \<open>add\<close>, in order; a fault ends the run.\<close>

fun add_all :: "string list \<Rightarrow> chain \<Rightarrow> fault + chain" where
  "add_all [] c = Inr c"
| "add_all (t # ts) c = (case add t c of Inl e \<Rightarrow> Inl e | Inr c' \<Rightarrow> add_all ts c')"

text \<open>
  \<open>in >> buf\<close> on the rest of a stream: skip leading white space, then take characters
  up to the next white space or the end. It fails, ending the loop of
  \<open>add(std::istream&, bool)\<close>, when no character is left after the white space.
\<close>

definition isspace :: "char \<Rightarrow> bool" where
  "isspace ch = (ch \<in> set [CHR 0x20, CHR 0x09, CHR 0x0A, CHR 0x0B, CHR 0x0C, CHR 0x0D])"

definition extract_token :: "string \<Rightarrow> (string \<times> string) option" where
  "extract_token inp =
     (let r = dropWhile isspace inp
      in if r = [] then None
         else Some (takeWhile (\<lambda>ch. \<not> isspace ch) r, dropWhile (\<lambda>ch. \<not> isspace ch) r))"

lemma extract_token_shorter: "extract_token inp = Some (buf, rest) \<Longrightarrow> length rest < length inp"
proof -
  assume a: "extract_token inp = Some (buf, rest)"
  let ?r = "dropWhile isspace inp"
  from a have ne: "?r \<noteq> []" and rest: "rest = dropWhile (\<lambda>ch. \<not> isspace ch) ?r"
    by (auto simp: extract_token_def Let_def split: if_splits)
  from ne have "\<not> isspace (hd ?r)" by (rule hd_dropWhile)
  with ne have "rest = dropWhile (\<lambda>ch. \<not> isspace ch) (tl ?r)"
    unfolding rest by (cases ?r) auto
  moreover have "length (dropWhile (\<lambda>ch. \<not> isspace ch) (tl ?r)) \<le> length (tl ?r)"
    by (rule length_dropWhile_le)
  ultimately have "length rest \<le> length (tl ?r)" by (simp only:)
  also from ne have "\<dots> < length ?r" by (cases ?r) auto
  also have "\<dots> \<le> length inp" by (rule length_dropWhile_le)
  finally show ?thesis .
qed

function add_loop :: "string \<Rightarrow> chain \<Rightarrow> fault + chain" where
  "add_loop inp c =
     (case extract_token inp of
        None \<Rightarrow> Inr c
      | Some (buf, rest) \<Rightarrow>
          (case add buf c of Inl e \<Rightarrow> Inl e | Inr c' \<Rightarrow> add_loop rest c'))"
  by pat_completeness auto
termination
  by (relation "measure (\<lambda>(inp, c). length inp)") (auto dest: extract_token_shorter)

text \<open>\<open>chain::add(std::istream&, bool)\<close>, on the characters left in the stream.\<close>

definition add_stream :: "string \<Rightarrow> bool \<Rightarrow> chain \<Rightarrow> fault + chain" where
  "add_stream inp resetprefix c =
     add_loop inp (if resetprefix then c\<lparr>current_prefix := []\<rparr> else c)"

section \<open>The shared random source\<close>

text \<open>
  \<open>random()\<close>, \<open>srandom()\<close> and the static flag \<open>chain::is_seeded\<close> are state of the
  whole process. \<open>rng\<close> holds the values the coming calls of \<open>random()\<close> return, in
  order; \<open>device\<close> holds the values the coming calls of \<open>getSeed()\<close> return (read from
  the random device or the clock); \<open>srandom_seq\<close> is the sequence the library generator
  yields after \<open>srandom\<close> with a given seed.
\<close>

record world =
  is_seeded :: bool
  rng :: "nat \<Rightarrow> nat"
  device :: "nat \<Rightarrow> nat"
  srandom_seq :: "nat \<Rightarrow> nat \<Rightarrow> nat"

definition random_next :: "world \<Rightarrow> nat \<times> world" where
  "random_next w = (rng w 0, w\<lparr>rng := (\<lambda>n. rng w (Suc n))\<rparr>)"

definition getSeed :: "world \<Rightarrow> nat \<times> world" where
  "getSeed w = (device w 0, w\<lparr>device := (\<lambda>n. device w (Suc n))\<rparr>)"

text \<open>\<open>chain::seed(bool force)\<close>.\<close>

definition seed :: "bool \<Rightarrow> world \<Rightarrow> world" where
  "seed force w =
     (if force \<or> \<not> is_seeded w then
        (case getSeed w of (sd, w1) \<Rightarrow> w1\<lparr>rng := srandom_seq w1 sd, is_seeded := True\<rparr>)
      else w)"

definition isSeeded :: "world \<Rightarrow> bool" where
  "isSeeded w = is_seeded w"

section \<open>Prefix queries\<close>

text \<open>
  The loop of \<open>randomPrefix\<close>:
  \<open>for (it = begin(); it != end() && j <= i; it++, j++) pref = it->first;\<close>
  over the entries still to visit.
\<close>

fun randomPrefix_loop :: "cmap \<Rightarrow> nat \<Rightarrow> nat \<Rightarrow> prefix \<Rightarrow> prefix" where
  "randomPrefix_loop [] j i pref = pref"
| "randomPrefix_loop ((k, v) # m) j i pref =
     (if j \<le> i then randomPrefix_loop m (Suc j) i k else pref)"

text \<open>
  \<open>chain::randomPrefix()\<close>. \<open>random() % this->size()\<close> has no defined result when the map
  is empty.
\<close>

definition randomPrefix :: "chain \<Rightarrow> world \<Rightarrow> fault + (prefix \<times> world)" where
  "randomPrefix c w =
     (let w1 = (if \<not> is_seeded w then seed False w else w)
      in case random_next w1 of (r, w2) \<Rightarrow>
           if length (entries c) = 0 then Inl Modulo_By_Zero
           else Inr (randomPrefix_loop (entries c) 0 (r mod length (entries c)) [], w2))"

definition currentPrefix :: "chain \<Rightarrow> prefix" where
  "currentPrefix c = current_prefix c"

text \<open>The protected \<open>chain::currentPrefix(prefix pref)\<close>.\<close>

definition currentPrefix_set :: "prefix \<Rightarrow> chain \<Rightarrow> prefix \<times> chain" where
  "currentPrefix_set pref c =
     (let c' = (if isValidPrefix c pref then c\<lparr>current_prefix := pref\<rparr> else c)
      in (current_prefix c', c'))"

definition prefixLength :: "chain \<Rightarrow> nat" where
  "prefixLength c = prefix_len c"

text \<open>The protected \<open>chain::prefixLength(std::size_t len)\<close>.\<close>

definition prefixLength_set :: "nat \<Rightarrow> chain \<Rightarrow> nat \<times> chain" where
  "prefixLength_set len c =
     (let c' = c\<lparr>entries := [], current_prefix := [], prefix_len := len\<rparr>
      in (prefix_len c', c'))"

section \<open>Output streams\<close>

text \<open>
  A \<open>std::ostream\<close> is the sequence of the insertions made into it: a \<open>std::string\<close>, a
  single character, a string literal, or \<open>std::endl\<close>. The text it holds is the
  concatenation of what each insertion writes. Write failures of the sink are outside
  the model.
\<close>

datatype insertion = Str string | Character char | Lit string | Endl

type_synonym ostream = "insertion list"

fun text_of_insertion :: "insertion \<Rightarrow> string" where
  "text_of_insertion (Str w) = w"
| "text_of_insertion (Character ch) = [ch]"
| "text_of_insertion (Lit l) = l"
| "text_of_insertion Endl = [CHR 0x0A]"

definition text_of :: "ostream \<Rightarrow> string" where
  "text_of s = concat (map text_of_insertion s)"

text \<open>The words written: every \<open>std::string\<close> inserted.\<close>

fun is_Str :: "insertion \<Rightarrow> bool" where
  "is_Str (Str w) = True"
| "is_Str _ = False"

definition words_written :: "ostream \<Rightarrow> nat" where
  "words_written s = length (filter is_Str s)"

section \<open>Generation\<close>

text \<open>
  The first loop of \<open>generate\<close>:
  \<open>for (i = 0; i < this->prefix_len; i++) s << this->current_prefix.at(i) << ' ';\<close>
  where \<open>at\<close> throws when \<open>i\<close> is not below the size of the deque.
\<close>

function emit_cursor :: "prefix \<Rightarrow> nat \<Rightarrow> nat \<Rightarrow> ostream \<Rightarrow> fault + ostream" where
  "emit_cursor cp len i s =
     (if i < len then
        (if i < length cp then emit_cursor cp len (Suc i) (s @ [Str (cp ! i), Character CHR '' ''])
         else Inl Out_Of_Range)
      else Inr s)"
  by pat_completeness auto
termination
  by (relation "measure (\<lambda>(cp, len, i, s). len - i)") auto

text \<open>
  The second loop of \<open>generate\<close>, from the value \<open>i\<close> has after the first.
  \<open>(*this)[current_prefix]\<close> on a key that is absent inserts an empty vector, and
  \<open>random() % suf.size()\<close> has no defined result on an empty vector; neither has
  \<open>pop_front()\<close> on an empty deque. The \<open>break\<close> leaves the loop with the cursor
  unchanged.
\<close>

function generate_loop ::
  "chain \<Rightarrow> world \<Rightarrow> ostream \<Rightarrow> nat \<Rightarrow> nat \<Rightarrow> fault + (ostream \<times> chain \<times> world)" where
  "generate_loop c w s i nwords =
     (if i < nwords then
        (case random_next w of (r, w') \<Rightarrow>
           (case map_of (entries c) (current_prefix c) of
              None \<Rightarrow> Inl Modulo_By_Zero
            | Some suf \<Rightarrow>
                if length suf = 0 then Inl Modulo_By_Zero
                else
                  (case current_prefix c of
                     [] \<Rightarrow> Inl Pop_Front_Empty
                   | x # rest \<Rightarrow>
                       if isValidPrefix c (rest @ [suf ! (r mod length suf)])
                       then generate_loop (c\<lparr>current_prefix := rest @ [suf ! (r mod length suf)]\<rparr>) w'
                              (s @ [Str (suf ! (r mod length suf)), Character CHR '' '']) (Suc i) nwords
                       else Inr (s @ [Str (suf ! (r mod length suf)), Character CHR '' ''], c, w'))))
      else Inr (s, c, w))"
  by pat_completeness auto
termination
  by (relation "measure (\<lambda>(c, w, s, i, nwords). nwords - i)") auto

text \<open>\<open>chain::generate(std::ostream& s, std::size_t nwords, prefix pref)\<close>.\<close>

definition generate ::
  "ostream \<Rightarrow> nat \<Rightarrow> prefix \<Rightarrow> chain \<Rightarrow> world \<Rightarrow> fault + (ostream \<times> chain \<times> world)" where
  "generate s nwords pref c w =
     (case (if isValidPrefix c pref then Inr (pref, w) else randomPrefix c w) of
        Inl e \<Rightarrow> Inl e
      | Inr (p, w1) \<Rightarrow>
          (let c1 = c\<lparr>current_prefix := p\<rparr>;
               w2 = (if \<not> is_seeded w1 then seed False w1 else w1)
           in case emit_cursor (current_prefix c1) (prefix_len c1) 0 s of
                Inl e \<Rightarrow> Inl e
              | Inr s1 \<Rightarrow>
                  (case generate_loop c1 w2 s1 (prefix_len c1) nwords of
                     Inl e \<Rightarrow> Inl e
                   | Inr (s2, c2, w3) \<Rightarrow> Inr (s2 @ [Endl], c2, w3))))"

text \<open>\<open>chain::generate(std::ostream& s, std::size_t nwords)\<close>.\<close>

definition generate_random ::
  "ostream \<Rightarrow> nat \<Rightarrow> chain \<Rightarrow> world \<Rightarrow> fault + (ostream \<times> chain \<times> world)" where
  "generate_random s nwords c w =
     (case randomPrefix c w of
        Inl e \<Rightarrow> Inl e
      | Inr (start, w1) \<Rightarrow> generate s nwords start c w1)"

section \<open>Serialization\<close>

text \<open>The loop over the prefix in \<open>write\<close>: \<open>s << *pit << ' '\<close> for each token.\<close>

fun write_prefix :: "prefix \<Rightarrow> ostream \<Rightarrow> ostream" where
  "write_prefix [] s = s"
| "write_prefix (t # ts) s = write_prefix ts (s @ [Str t, Character CHR '' ''])"

text \<open>
  The loop over the successors: each token, then a space when another follows and
  \<open>std::endl\<close> after the last. Nothing is written for an empty vector.
\<close>

fun write_suffix :: "string list \<Rightarrow> ostream \<Rightarrow> ostream" where
  "write_suffix [] s = s"
| "write_suffix (t # ts) s =
     write_suffix ts (s @ [Str t] @ (if ts \<noteq> [] then [Character CHR '' ''] else [Endl]))"

fun write_entries :: "cmap \<Rightarrow> ostream \<Rightarrow> ostream" where
  "write_entries [] s = s"
| "write_entries ((pref, suf) # m) s =
     write_entries m (write_suffix suf (write_prefix pref s @ [Lit '': '']))"

text \<open>\<open>chain::write(std::ostream& s)\<close> (\<open>write\<close> is a keyword of Isabelle).\<close>

definition write_chain :: "ostream \<Rightarrow> chain \<Rightarrow> ostream" where
  "write_chain s c = write_entries (entries c) s"

section \<open>Deserialization\<close>

text \<open>
  \<open>std::string::find\<close> of a string and of a character: the first position of an
  occurrence, \<open>None\<close> for \<open>npos\<close>.
\<close>

fun starts_with :: "string \<Rightarrow> string \<Rightarrow> bool" where
  "starts_with [] str = True"
| "starts_with (p # ps) [] = False"
| "starts_with (p # ps) (ch # str) = (p = ch \<and> starts_with ps str)"

fun find_str :: "string \<Rightarrow> string \<Rightarrow> nat option" where
  "find_str pat [] = (if pat = [] then Some 0 else None)"
| "find_str pat (ch # str) =
     (if starts_with pat (ch # str) then Some 0 else map_option Suc (find_str pat str))"

fun find_char :: "char \<Rightarrow> string \<Rightarrow> nat option" where
  "find_char x [] = None"
| "find_char x (ch # str) = (if ch = x then Some 0 else map_option Suc (find_char x str))"

lemma find_char_less: "find_char x str = Some i \<Longrightarrow> i < length str"
  by (induction str arbitrary: i) (auto split: if_splits)

text \<open>
  The first \<open>do ... while\<close> loop of \<open>parseLine\<close>, which cuts \<open>pstr\<close> at single spaces
  into \<open>temp\<close>. \<open>substr(0, npos)\<close> is the whole string.
\<close>

function split_prefix :: "prefix \<Rightarrow> string \<Rightarrow> prefix" where
  "split_prefix temp pstr =
     (case find_char CHR '' '' pstr of
        None \<Rightarrow> temp @ [pstr]
      | Some spos \<Rightarrow> split_prefix (temp @ [take spos pstr]) (drop (Suc spos) pstr))"
  by pat_completeness auto
termination
  by (relation "measure (\<lambda>(temp, pstr). length pstr)") (auto dest: find_char_less)

text \<open>The second loop, which pushes each piece of \<open>pstr\<close> onto the entry of \<open>temp\<close>.\<close>

function push_suffixes :: "prefix \<Rightarrow> string \<Rightarrow> cmap \<Rightarrow> cmap" where
  "push_suffixes temp pstr m =
     (case find_char CHR '' '' pstr of
        None \<Rightarrow> push_at temp pstr m
      | Some spos \<Rightarrow>
          push_suffixes temp (drop (Suc spos) pstr) (push_at temp (take spos pstr) m))"
  by pat_completeness auto
termination
  by (relation "measure (\<lambda>(temp, pstr, m). length pstr)") (auto dest: find_char_less)

text \<open>\<open>chain::parseLine(std::string line)\<close>: the value returned and the chain after.\<close>

definition parseLine :: "string \<Rightarrow> chain \<Rightarrow> bool \<times> chain" where
  "parseLine line c =
     (case find_str '' : '' line of
        None \<Rightarrow> (False, c)
      | Some cpos \<Rightarrow>
          (let temp = split_prefix [] (take cpos line);
               c1 = (if prefix_len c = 0 then c\<lparr>prefix_len := length temp\<rparr> else c)
           in if length temp = prefix_len c1
              then (True, c1\<lparr>current_prefix := temp,
                             entries := push_suffixes temp (drop (cpos + 3) line) (entries c1)\<rparr>)
              else (False, c1)))"

text \<open>
  An input stream is the characters left in it and whether \<open>good()\<close> holds.
  \<open>std::getline\<close> takes characters up to a line feed, which it consumes and does not
  store; reaching the end of the stream first sets \<open>eofbit\<close>, so the stream is no longer
  good. The result is the line, and the stream after the call.
\<close>

type_synonym istream = "string \<times> bool"

fun getline_chars :: "string \<Rightarrow> string \<times> istream" where
  "getline_chars [] = ([], ([], False))"
| "getline_chars (ch # inp) =
     (if ch = CHR 0x0A then ([], (inp, True))
      else (case getline_chars inp of (line, st) \<Rightarrow> (ch # line, st)))"

definition getline :: "istream \<Rightarrow> string \<times> istream" where
  "getline st = (if snd st then getline_chars (fst st) else ([], (fst st, False)))"

lemma getline_chars_shorter:
  "getline_chars inp = (line, (rest, True)) \<Longrightarrow> length rest < length inp"
  by (induction inp arbitrary: line) (auto split: if_splits prod.splits)

text \<open>
  The loop of \<open>read\<close>:
  \<open>while (s.good()) { std::getline(s, line); if (s.good()) this->parseLine(line); }\<close>
\<close>

function read_loop :: "istream \<Rightarrow> chain \<Rightarrow> chain" where
  "read_loop st c =
     (if snd st then
        (case getline st of (line, st') \<Rightarrow>
           read_loop st' (if snd st' then snd (parseLine line c) else c))
      else c)"
  by pat_completeness auto
termination
  by (relation "measure (\<lambda>(st, c). if snd st then Suc (length (fst st)) else 0)")
     (auto simp: getline_def dest: getline_chars_shorter [OF sym])

text \<open>\<open>chain::read(std::istream& s)\<close>.\<close>

definition read :: "istream \<Rightarrow> chain \<Rightarrow> chain" where
  "read st c = read_loop st (c\<lparr>entries := [], current_prefix := [], prefix_len := 0\<rparr>)"

section \<open>Notions of the specification\<close>

text \<open>
  The state invariant of the data model: every key has length \<open>prefix_len\<close>, every
  successor list is non-empty, and \<open>current_prefix\<close> is no longer than \<open>prefix_len\<close>.
\<close>

definition chain_inv :: "chain \<Rightarrow> bool" where
  "chain_inv c =
     ((\<forall>(k, v) \<in> set (entries c). length k = prefix_len c \<and> v \<noteq> [])
      \<and> length (current_prefix c) \<le> prefix_len c)"

text \<open>
  The windows of length \<open>L\<close> met by sliding over a token stream one token at a time,
  in order of position.
\<close>

definition windows :: "nat \<Rightarrow> string list \<Rightarrow> string list list" where
  "windows L ts = map (\<lambda>i. take L (drop i ts)) [0 ..< Suc (length ts) - L]"

text \<open>The successors recorded for a key; none when the key is absent.\<close>

definition successors :: "cmap \<Rightarrow> prefix \<Rightarrow> string list" where
  "successors m k = (case map_of m k of None \<Rightarrow> [] | Some v \<Rightarrow> v)"

text \<open>Tokens separated by single spaces, and the line of the file format for an entry.\<close>

fun join_sp :: "string list \<Rightarrow> string" where
  "join_sp [] = []"
| "join_sp [t] = t"
| "join_sp (t # u # ts) = t @ CHR '' '' # join_sp (u # ts)"

definition entry_line :: "prefix \<times> string list \<Rightarrow> string" where
  "entry_line e = join_sp (fst e) @ '' : '' @ join_sp (snd e)"

text \<open>The lines of a text that end in a line feed, without it.\<close>

fun complete_lines :: "string \<Rightarrow> string list" where
  "complete_lines [] = []"
| "complete_lines (ch # inp) =
     (if ch = CHR 0x0A then [] # complete_lines inp
      else (case complete_lines inp of [] \<Rightarrow> [] | l # ls \<Rightarrow> (ch # l) # ls))"

text \<open>
  What the file format asks of a chain for its lines to be read back as written: no token
  holds a space or a line feed, and no token of a key after its first is a lone colon.
\<close>

definition clean_token :: "string \<Rightarrow> bool" where
  "clean_token t = (CHR '' '' \<notin> set t \<and> CHR 0x0A \<notin> set t)"

definition serializable :: "cmap \<Rightarrow> bool" where
  "serializable m =
     (\<forall>(k, v) \<in> set m. (\<forall>t \<in> set k. clean_token t) \<and> (\<forall>t \<in> set v. clean_token t)
                         \<and> '':'' \<notin> set (tl k))"

text \<open>The stream a call of \<open>generate\<close> leaves, when it returns.\<close>

definition output_of :: "fault + (ostream \<times> chain \<times> world) \<Rightarrow> ostream option" where
  "output_of r = (case r of Inl e \<Rightarrow> None | Inr (s, c, w) \<Rightarrow> Some s)"

subsection \<open>Concrete states\<close>

text \<open>A process that has not seeded the generator, with some fixed random values.\<close>

definition world0 :: world where
  "world0 = \<lparr>is_seeded = False, rng = (\<lambda>n. n), device = (\<lambda>n. 0),
             srandom_seq = (\<lambda>sd n. sd + n)\<rparr>"

text \<open>The chain of prefix length 2 after the tokens \<open>the cat sat\<close>.\<close>

definition the_cat_sat :: chain where
  "the_cat_sat = \<lparr>entries = [([''the'', ''cat''], [''sat''])],
                    current_prefix = [''cat'', ''sat''], prefix_len = 2\<rparr>"

text \<open>A chain of prefix length 2 with two entries.\<close>

definition two_entries :: chain where
  "two_entries = \<lparr>entries = [([''a'', ''b''], [''c'', ''d'']), ([''b'', ''c''], [''d''])],
                    current_prefix = [''c'', ''d''], prefix_len = 2\<rparr>"

text \<open>The chain of prefix length 2 after the tokens \<open>a : b\<close>.\<close>

definition colon_chain :: chain where
  "colon_chain = \<lparr>entries = [([''a'', '':''], [''b''])],
                    current_prefix = ['':'', ''b''], prefix_len = 2\<rparr>"

section \<open>Properties of generation\<close>

declare emit_cursor.simps [simp del] generate_loop.simps [simp del]

lemma words_written_append [simp]: "words_written (s @ t) = words_written s + words_written t"
  by (simp add: words_written_def)

lemma words_written_simps [simp]:
  "words_written [] = 0"
  "words_written (Str x # s) = Suc (words_written s)"
  "words_written (Character ch # s) = words_written s"
  "words_written (Lit l # s) = words_written s"
  "words_written (Endl # s) = words_written s"
  by (simp_all add: words_written_def)

lemma emit_cursor_words:
  "emit_cursor cp len i s = Inr s' \<Longrightarrow> words_written s' = words_written s + (len - i)"
proof (induction cp len i s rule: emit_cursor.induct)
  case (1 cp len i s)
  show ?case
  proof (cases "i < len")
    case False
    with "1.prems" show ?thesis by (simp add: emit_cursor.simps)
  next
    case True
    with "1.prems" have lt: "i < length cp"
      and rec: "emit_cursor cp len (Suc i) (s @ [Str (cp ! i), Character CHR '' '']) = Inr s'"
      by (auto simp: emit_cursor.simps [of cp len i s] split: if_splits)
    from "1.IH" [OF True lt rec] True show ?thesis by simp
  qed
qed

lemma emit_cursor_ok:
  "len \<le> length cp \<Longrightarrow> \<exists>s'. emit_cursor cp len i s = Inr s'"
proof (induction cp len i s rule: emit_cursor.induct)
  case (1 cp len i s)
  show ?case
  proof (cases "i < len")
    case False
    then show ?thesis by (simp add: emit_cursor.simps)
  next
    case True
    with "1.prems" have lt: "i < length cp" by simp
    from "1.IH" [OF True lt "1.prems"] True lt show ?thesis
      by (simp add: emit_cursor.simps [of cp len i s])
  qed
qed

lemma generate_loop_words:
  "generate_loop c w s i n = Inr (s', c', w') \<Longrightarrow>
     words_written s' \<le> words_written s + (n - i) \<and> words_written s \<le> words_written s'
       \<and> entries c' = entries c
       \<and> prefix_len c' = prefix_len c
       \<and> (isValidPrefix c (current_prefix c) \<longrightarrow> isValidPrefix c' (current_prefix c'))"
proof (induction c w s i n arbitrary: s' c' w' rule: generate_loop.induct)
  case (1 c w s i nwords)
  show ?case
  proof (cases "i < nwords")
    case False
    with "1.prems" show ?thesis by (simp add: generate_loop.simps)
  next
    case True
    obtain r w1 where rn: "random_next w = (r, w1)" by (cases "random_next w")
    from "1.prems" True rn obtain suf x rest
      where suf: "map_of (entries c) (current_prefix c) = Some suf" and ne: "length suf \<noteq> 0"
        and cp: "current_prefix c = x # rest"
      by (auto simp: generate_loop.simps [of c w s i nwords]
               split: option.splits if_splits list.splits)
    let ?wd = "suf ! (r mod length suf)"
    let ?s1 = "s @ [Str ?wd, Character CHR '' '']"
    show ?thesis
    proof (cases "isValidPrefix c (rest @ [?wd])")
      case False
      with "1.prems" True rn suf ne cp have "s' = ?s1" "c' = c" "w' = w1"
        by (simp_all add: generate_loop.simps [of c w s i nwords])
      with True show ?thesis by simp
    next
      case valid: True
      with "1.prems" True rn suf ne cp
      have rec: "generate_loop (c\<lparr>current_prefix := rest @ [?wd]\<rparr>) w1 ?s1 (Suc i) nwords
                 = Inr (s', c', w')"
        by (simp add: generate_loop.simps [of c w s i nwords])
      from "1.IH" [OF True rn [symmetric] suf ne cp valid rec] True valid
      show ?thesis by (auto simp: isValidPrefix_def)
    qed
  qed
qed


lemma isValidPrefix_iff: "isValidPrefix c k \<longleftrightarrow> k \<in> fst ` set (entries c)"
  by (simp add: isValidPrefix_def map_of_eq_None_iff)

lemma chain_inv_lookup:
  "chain_inv c \<Longrightarrow> map_of (entries c) k = Some v \<Longrightarrow> length k = prefix_len c \<and> v \<noteq> []"
  by (auto simp: chain_inv_def dest!: map_of_SomeD)

lemma generate_loop_ok:
  "chain_inv c \<Longrightarrow> 0 < prefix_len c \<Longrightarrow> isValidPrefix c (current_prefix c) \<Longrightarrow>
     \<exists>s' c' w'. generate_loop c w s i n = Inr (s', c', w')"
proof (induction c w s i n rule: generate_loop.induct)
  case (1 c w s i nwords)
  show ?case
  proof (cases "i < nwords")
    case False
    then show ?thesis by (simp add: generate_loop.simps)
  next
    case True
    obtain r w1 where rn: "random_next w = (r, w1)" by (cases "random_next w")
    from "1.prems"(3) obtain suf where suf: "map_of (entries c) (current_prefix c) = Some suf"
      by (auto simp: isValidPrefix_def)
    from chain_inv_lookup [OF "1.prems"(1) suf] "1.prems"(2)
    have ne: "length suf \<noteq> 0" and len: "0 < length (current_prefix c)" by simp_all
    then obtain x rest where cp: "current_prefix c = x # rest"
      by (cases "current_prefix c") auto
    let ?wd = "suf ! (r mod length suf)"
    show ?thesis
    proof (cases "isValidPrefix c (rest @ [?wd])")
      case False
      with True rn suf ne cp show ?thesis
        by (simp add: generate_loop.simps [of c w s i nwords])
    next
      case valid: True
      let ?c1 = "c\<lparr>current_prefix := rest @ [?wd]\<rparr>"
      from valid have v1: "isValidPrefix ?c1 (current_prefix ?c1)"
        by (simp add: isValidPrefix_def)
      from valid obtain v where "map_of (entries c) (rest @ [?wd]) = Some v"
        by (auto simp: isValidPrefix_def)
      from chain_inv_lookup [OF "1.prems"(1) this] "1.prems"(1)
      have inv1: "chain_inv ?c1" by (simp add: chain_inv_def)
      from "1.prems"(2) have pl1: "0 < prefix_len ?c1" by simp
      from "1.IH" [OF True rn [symmetric] suf ne cp valid inv1 pl1 v1] True rn suf ne cp valid
      show ?thesis by (simp add: generate_loop.simps [of c w s i nwords])
    qed
  qed
qed

lemma randomPrefix_loop_mem:
  "randomPrefix_loop m j i pref \<in> insert pref (fst ` set m)"
  by (induction m j i pref rule: randomPrefix_loop.induct) auto

lemma randomPrefix_loop_key:
  "m \<noteq> [] \<Longrightarrow> j \<le> i \<Longrightarrow> randomPrefix_loop m j i pref \<in> fst ` set m"
proof (cases m)
  case Nil
  assume "m \<noteq> []"
  with Nil show ?thesis by simp
next
  case (Cons e m')
  assume "j \<le> i"
  obtain k v where e: "e = (k, v)" by (cases e)
  from randomPrefix_loop_mem [of m' "Suc j" i k] \<open>j \<le> i\<close> show ?thesis
    unfolding Cons e by auto
qed

lemma randomPrefix_valid:
  assumes "entries c \<noteq> []"
  shows "\<exists>p w'. randomPrefix c w = Inr (p, w') \<and> isValidPrefix c p \<and> is_seeded w'"
proof -
  let ?w1 = "if \<not> is_seeded w then seed False w else w"
  have s1: "is_seeded ?w1" by (simp add: seed_def getSeed_def)
  obtain r w2 where rn: "random_next ?w1 = (r, w2)" by (cases "random_next ?w1")
  with s1 have s2: "is_seeded w2" by (auto simp: random_next_def)
  from assms have "isValidPrefix c (randomPrefix_loop (entries c) 0 (r mod length (entries c)) [])"
    by (simp add: isValidPrefix_iff randomPrefix_loop_key)
  with rn s2 assms show ?thesis
    by (simp add: randomPrefix_def Let_def)
qed

lemma randomPrefix_empty: "entries c = [] \<Longrightarrow> randomPrefix c w = Inl Modulo_By_Zero"
  by (simp add: randomPrefix_def Let_def split: prod.splits)

lemma the_cat_sat_generate:
  "generate [] n [''the'', ''cat''] the_cat_sat w =
     (if 2 < n
      then Inr ([Str ''the'', Character CHR '' '', Str ''cat'', Character CHR '' '',
                 Str ''sat'', Character CHR '' '', Endl],
                the_cat_sat\<lparr>current_prefix := [''the'', ''cat'']\<rparr>,
                snd (random_next (if \<not> is_seeded w then seed False w else w)))
      else Inr ([Str ''the'', Character CHR '' '', Str ''cat'', Character CHR '' '', Endl],
                the_cat_sat\<lparr>current_prefix := [''the'', ''cat'']\<rparr>,
                if \<not> is_seeded w then seed False w else w))"
proof -
  have ec: "emit_cursor [''the'', ''cat''] 2 0 [] =
              Inr [Str ''the'', Character CHR '' '', Str ''cat'', Character CHR '' '']"
    by (simp add: emit_cursor.simps)
  show ?thesis
    by (simp add: generate_def the_cat_sat_def isValidPrefix_def ec Let_def
          generate_loop.simps [of _ _ _ 2 n] split: prod.splits)
qed

section \<open>Claims on generation\<close>

text \<open>
  Claim C3. On an empty mapping \<open>randomPrefix\<close> and both forms of \<open>generate\<close> should
  fail with a reportable error. The code has no guard: whatever the rest of the chain,
  the starting prefix, the word count and the state of the random source, each of the
  three calls evaluates \<open>random() % this->size()\<close> with size 0, which is undefined
  behaviour and not an error the caller can catch.
\<close>

theorem empty_chain_modulo_by_zero:
  "randomPrefix (c\<lparr>entries := []\<rparr>) w = Inl Modulo_By_Zero
   \<and> generate s n p (c\<lparr>entries := []\<rparr>) w = Inl Modulo_By_Zero
   \<and> generate_random s n (c\<lparr>entries := []\<rparr>) w = Inl Modulo_By_Zero"
  by (simp add: randomPrefix_empty generate_def generate_random_def isValidPrefix_def)

text \<open>
  Claim C4, as amended. For a chain that satisfies the state invariant, with a positive
  prefix length and a non-empty mapping, \<open>generate\<close> returns, and the number of words it
  wrote is at least the prefix length and at most the larger of the word count and the
  prefix length: the starting prefix is always written in full. It may write fewer words
  than asked: the chain trained on \<open>the cat sat\<close> writes 3 words when asked for 10.
\<close>

theorem generate_word_bound:
  assumes "chain_inv c" and "0 < prefix_len c" and "entries c \<noteq> []"
  shows "(\<exists>s' c' w'. generate s n p c w = Inr (s', c', w')
           \<and> words_written s' - words_written s \<le> max n (prefix_len c)
           \<and> prefix_len c \<le> words_written s' - words_written s)
         \<and> map_option words_written
               (output_of (generate [] 10 [''the'', ''cat''] the_cat_sat w0)) = Some 3"
proof -
  obtain q w1 where start: "(if isValidPrefix c p then Inr (p, w) else randomPrefix c w) = Inr (q, w1)"
    and vq: "isValidPrefix c q"
    using randomPrefix_valid [OF assms(3), of w] by (cases "isValidPrefix c p") auto
  let ?c1 = "c\<lparr>current_prefix := q\<rparr>"
  let ?w2 = "if \<not> is_seeded w1 then seed False w1 else w1"
  from vq obtain v where "map_of (entries c) q = Some v" by (auto simp: isValidPrefix_def)
  from chain_inv_lookup [OF assms(1) this] have lq: "length q = prefix_len c" by simp
  with assms(1) have inv1: "chain_inv ?c1" by (simp add: chain_inv_def)
  from lq obtain s1 where ec: "emit_cursor q (prefix_len c) 0 s = Inr s1"
    using emit_cursor_ok [of "prefix_len c" q 0 s] by auto
  from emit_cursor_words [OF ec] have w1: "words_written s1 = words_written s + prefix_len c"
    by simp
  from vq have v1: "isValidPrefix ?c1 (current_prefix ?c1)" by (simp add: isValidPrefix_def)
  from assms(2) have pl1: "0 < prefix_len ?c1" by simp
  from generate_loop_ok [OF inv1 pl1 v1, of ?w2 s1 "prefix_len c" n]
  obtain s2 c2 w3 where gl: "generate_loop ?c1 ?w2 s1 (prefix_len c) n = Inr (s2, c2, w3)"
    by blast
  from generate_loop_words [OF gl]
  have w2: "words_written s2 \<le> words_written s1 + (n - prefix_len c)" by simp
  from generate_loop_words [OF gl] have mono: "words_written s1 \<le> words_written s2" by simp
  from start ec gl have "generate s n p c w = Inr (s2 @ [Endl], c2, w3)"
    by (simp add: generate_def Let_def del: if_split)
  with w1 w2 mono
  have "\<exists>s' c' w'. generate s n p c w = Inr (s', c', w')
           \<and> words_written s' - words_written s \<le> max n (prefix_len c)
           \<and> prefix_len c \<le> words_written s' - words_written s"
    by (auto simp: max_def)
  moreover have "map_option words_written
          (output_of (generate [] 10 [''the'', ''cat''] the_cat_sat w0)) = Some 3"
    by (simp add: the_cat_sat_generate output_of_def)
  ultimately show ?thesis by (rule conjI)
qed

text \<open>
  The hypotheses of the bound hold of the chain trained on \<open>the cat sat\<close>, which writes
  3 words when asked for 10.
\<close>

theorem generate_word_bound_witness:
  "chain_inv the_cat_sat \<and> 0 < prefix_len the_cat_sat \<and> entries the_cat_sat \<noteq> []
   \<and> (\<exists>s' c' w'. generate [] 10 [''the'', ''cat''] the_cat_sat world0 = Inr (s', c', w')
         \<and> words_written s' - words_written [] \<le> max 10 (prefix_len the_cat_sat)
         \<and> prefix_len the_cat_sat \<le> words_written s' - words_written [])
   \<and> map_option words_written (output_of (generate [] 10 [''the'', ''cat''] the_cat_sat world0))
       = Some 3"
proof -
  have h: "chain_inv the_cat_sat" "0 < prefix_len the_cat_sat" "entries the_cat_sat \<noteq> []"
    by (simp_all add: chain_inv_def the_cat_sat_def)
  from generate_word_bound [OF h, of "[]" 10 "[''the'', ''cat'']" world0 world0] h show ?thesis
    by (simp add: the_cat_sat_generate output_of_def)
qed

text \<open>
  Claim C4 as stated fails: asked for 1 word, the chain trained on \<open>the cat sat\<close> writes
  the 2 words of its starting prefix.
\<close>

theorem generate_word_bound_counterexample:
  "map_option words_written (output_of (generate [] 1 [''the'', ''cat''] the_cat_sat world0))
     = Some 2 \<and> \<not> (2::nat) \<le> 1"
  by (simp add: the_cat_sat_generate output_of_def)

text \<open>
  Claim C5, as amended. Training a fresh chain of prefix length 2 on \<open>the cat sat\<close> gives
  the single entry \<open>the cat\<close> with successors \<open>sat\<close>. Whatever the state of the random
  source, generating 3 words from the prefix \<open>the cat\<close> writes the 3 words
  \<open>the cat sat\<close>, each followed by one space, the last one too, and then the line break.
  The walk ends there because \<open>cat sat\<close> is not a key: asking for 10 words writes the
  same.
\<close>

theorem the_cat_sat_scenario:
  "add_all [''the'', ''cat'', ''sat''] (new_chain 2) = Inr the_cat_sat
   \<and> entries the_cat_sat = [([''the'', ''cat''], [''sat''])]
   \<and> map_option text_of (output_of (generate [] 3 [''the'', ''cat''] the_cat_sat w))
       = Some (''the cat sat '' @ [CHR 0x0A])
   \<and> map_option words_written (output_of (generate [] 3 [''the'', ''cat''] the_cat_sat w))
       = Some 3
   \<and> \<not> isValidPrefix the_cat_sat [''cat'', ''sat'']
   \<and> output_of (generate [] 10 [''the'', ''cat''] the_cat_sat w)
       = output_of (generate [] 3 [''the'', ''cat''] the_cat_sat w)"
  by (simp add: the_cat_sat_generate output_of_def text_of_def)
     (simp add: the_cat_sat_def add_def new_chain_def isValidPrefix_def)

text \<open>
  Claim C5 as stated fails: the text written is not \<open>the cat sat\<close> directly followed by
  the line break.
\<close>

theorem the_cat_sat_text_counterexample:
  "map_option text_of (output_of (generate [] 3 [''the'', ''cat''] the_cat_sat world0))
     \<noteq> Some (''the cat sat'' @ [CHR 0x0A])"
  by (simp add: the_cat_sat_generate output_of_def text_of_def)

text \<open>
  Claim C8. On a chain with a non-empty mapping, \<open>generate\<close> with a prefix that is not a
  key gives what \<open>generate\<close> without a prefix gives from the same state of the random
  source: the same stream, the same chain and the same state of the random source after.
\<close>

theorem generate_invalid_prefix_as_random:
  assumes "entries c \<noteq> []" and "\<not> isValidPrefix c p"
  shows "generate s n p c w = generate_random s n c w"
proof -
  from randomPrefix_valid [OF assms(1)] obtain start w1
    where rp: "randomPrefix c w = Inr (start, w1)" and v: "isValidPrefix c start"
    by blast
  from rp v assms(2) show ?thesis
    by (simp add: generate_def generate_random_def)
qed

text \<open>
  On the chain trained on \<open>the cat sat\<close>, the prefix \<open>a dog\<close> is not a key; both calls
  write \<open>the cat sat\<close>.
\<close>

theorem generate_invalid_prefix_as_random_witness:
  "entries the_cat_sat \<noteq> [] \<and> \<not> isValidPrefix the_cat_sat [''a'', ''dog'']
   \<and> generate [] 3 [''a'', ''dog''] the_cat_sat world0 = generate_random [] 3 the_cat_sat world0
   \<and> map_option text_of (output_of (generate_random [] 3 the_cat_sat world0))
       = Some (''the cat sat '' @ [CHR 0x0A])"
proof -
  have h: "entries the_cat_sat \<noteq> []" "\<not> isValidPrefix the_cat_sat [''a'', ''dog'']"
    by (simp_all add: the_cat_sat_def isValidPrefix_def)
  have rp: "randomPrefix the_cat_sat world0 =
              Inr ([''the'', ''cat''], snd (random_next (seed False world0)))"
    by (simp add: randomPrefix_def the_cat_sat_def world0_def Let_def split: prod.splits)
  from generate_invalid_prefix_as_random [OF h, of "[]" 3 world0] h show ?thesis
    by (simp add: generate_random_def rp the_cat_sat_generate output_of_def text_of_def)
qed

section \<open>Properties of serialization\<close>

lemma text_of_append [simp]: "text_of (s @ t) = text_of s @ text_of t"
  by (simp add: text_of_def)

lemma text_of_simps [simp]:
  "text_of [] = []"
  "text_of (x # s) = text_of_insertion x @ text_of s"
  by (simp_all add: text_of_def)

lemma join_sp_trailing:
  "k \<noteq> [] \<Longrightarrow> concat (map (\<lambda>t. t @ '' '') k) = join_sp k @ '' ''"
  by (induction k rule: join_sp.induct) simp_all

lemma text_of_write_prefix:
  "text_of (write_prefix k s) = text_of s @ concat (map (\<lambda>t. t @ '' '') k)"
  by (induction k arbitrary: s) simp_all

lemma text_of_write_suffix:
  "v \<noteq> [] \<Longrightarrow> text_of (write_suffix v s) = text_of s @ join_sp v @ [CHR 0x0A]"
proof (induction v arbitrary: s rule: join_sp.induct)
  case 1
  then show ?case by simp
next
  case (2 t)
  show ?case by simp
next
  case (3 t u ts)
  have "text_of (write_suffix (u # ts) (s @ [Str t, Character CHR '' '']))
          = text_of (s @ [Str t, Character CHR '' '']) @ join_sp (u # ts) @ [CHR 0x0A]"
    by (rule "3.IH") simp
  then show ?case by simp
qed

lemma text_of_write_entries:
  "\<forall>(k, v) \<in> set m. k \<noteq> [] \<and> v \<noteq> [] \<Longrightarrow>
     text_of (write_entries m s) = text_of s @ concat (map (\<lambda>e. entry_line e @ [CHR 0x0A]) m)"
proof (induction m arbitrary: s)
  case Nil
  show ?case by simp
next
  case (Cons e m)
  obtain k v where e: "e = (k, v)" by (cases e)
  from Cons.prems e have kv: "k \<noteq> []" "v \<noteq> []" and rest: "\<forall>(k, v) \<in> set m. k \<noteq> [] \<and> v \<noteq> []"
    by auto
  from kv show ?case
    unfolding e
    by (simp add: Cons.IH [OF rest] text_of_write_suffix text_of_write_prefix
          join_sp_trailing entry_line_def)
qed

section \<open>Claims on serialization\<close>

text \<open>
  Claim C6. For a chain that satisfies the state invariant, with a positive prefix
  length, the text \<open>write\<close> adds to the stream is one line per entry, in the order of
  the map: the tokens of the key separated by single spaces, then space, colon, space,
  then the successors separated by single spaces, then the line break. The chain whose
  only entry is \<open>the cat\<close> with successor \<open>sat\<close> is written as the line
  \<open>the cat : sat\<close>.
\<close>

theorem write_one_line_per_entry:
  assumes "chain_inv c" and "0 < prefix_len c"
  shows "text_of (write_chain s c)
           = text_of s @ concat (map (\<lambda>e. entry_line e @ [CHR 0x0A]) (entries c))
         \<and> text_of (write_chain [] the_cat_sat) = ''the cat : sat'' @ [CHR 0x0A]"
proof -
  from assms have "\<forall>(k, v) \<in> set (entries c). k \<noteq> [] \<and> v \<noteq> []"
    by (auto simp: chain_inv_def)
  then have "text_of (write_chain s c)
           = text_of s @ concat (map (\<lambda>e. entry_line e @ [CHR 0x0A]) (entries c))"
    unfolding write_chain_def by (rule text_of_write_entries)
  moreover have "text_of (write_chain [] the_cat_sat) = ''the cat : sat'' @ [CHR 0x0A]"
    by (simp add: write_chain_def the_cat_sat_def)
  ultimately show ?thesis by (rule conjI)
qed

text \<open>A chain with two entries satisfies the hypotheses and is written as two lines.\<close>

theorem write_one_line_per_entry_witness:
  "chain_inv two_entries \<and> 0 < prefix_len two_entries
   \<and> text_of (write_chain [] two_entries) = ''a b : c d'' @ [CHR 0x0A] @ ''b c : d'' @ [CHR 0x0A]"
proof -
  have h: "chain_inv two_entries" "0 < prefix_len two_entries"
    by (simp_all add: chain_inv_def two_entries_def)
  from write_one_line_per_entry [OF h, of "[]"] h show ?thesis
    by (simp add: two_entries_def entry_line_def)
qed

section \<open>Properties of the map and of deserialization\<close>

declare split_prefix.simps [simp del] push_suffixes.simps [simp del] read_loop.simps [simp del]

lemma map_ok_Cons: "map_ok ((k, v) # m) \<longleftrightarrow> (\<forall>x \<in> fst ` set m. k < x) \<and> map_ok m"
  by (auto simp: map_ok_def)

lemma keys_push_at: "fst ` set (push_at k s m) = insert k (fst ` set m)"
proof (induction m)
  case Nil
  show ?case by simp
next
  case (Cons e m)
  then show ?case by (cases e) (simp add: insert_commute)
qed

lemma map_ok_push_at: "map_ok m \<Longrightarrow> map_ok (push_at k s m)"
proof (induction m)
  case Nil
  show ?case by (simp add: map_ok_def)
next
  case (Cons e m)
  obtain k' v where e: "e = (k', v)" by (cases e)
  from Cons.prems have gt: "\<forall>x \<in> fst ` set m. k' < x" and ok: "map_ok m"
    by (simp_all add: e map_ok_Cons)
  show ?case
  proof (cases "k = k'")
    case True
    with gt ok show ?thesis by (simp add: e map_ok_Cons)
  next
    case False
    show ?thesis
    proof (cases "k < k'")
      case True
      with gt ok False show ?thesis by (auto simp: e map_ok_Cons)
    next
      case ge: False
      with False have "k' < k" by simp
      with gt Cons.IH [OF ok] False ge show ?thesis
        by (simp add: e map_ok_Cons keys_push_at)
    qed
  qed
qed

lemma map_ok_lookup_None: "map_ok ((k', v) # m) \<Longrightarrow> k < k' \<Longrightarrow> map_of ((k', v) # m) k = None"
  by (auto simp: map_ok_Cons map_of_eq_None_iff)
lemma map_of_push_at:
  "map_ok m \<Longrightarrow>
     map_of (push_at k s m) k' = (if k' = k then Some (successors m k @ [s]) else map_of m k')"
proof (induction m arbitrary: k')
  case Nil
  show ?case by (simp add: successors_def)
next
  case (Cons e m)
  obtain k1 v where e: "e = (k1, v)" by (cases e)
  from Cons.prems have ok: "map_ok m" by (simp add: e map_ok_Cons)
  show ?case
  proof (cases "k = k1")
    case True
    then show ?thesis by (simp add: e successors_def)
  next
    case False
    show ?thesis
    proof (cases "k < k1")
      case True
      from map_ok_lookup_None [OF Cons.prems [unfolded e] True] False True
      show ?thesis by (simp add: e successors_def)
    next
      case ge: False
      with False Cons.IH [OF ok] show ?thesis by (simp add: e successors_def)
    qed
  qed
qed


lemma split_prefix_acc: "split_prefix temp pstr = temp @ split_prefix [] pstr"
proof (induction "length pstr" arbitrary: temp pstr rule: less_induct)
  case less
  show ?case
  proof (cases "find_char CHR '' '' pstr")
    case None
    then show ?thesis by (simp add: split_prefix.simps [of _ pstr])
  next
    case (Some spos)
    from find_char_less [OF Some] have "length (drop (Suc spos) pstr) < length pstr" by simp
    from less [OF this, of "temp @ [take spos pstr]"] less [OF this, of "[take spos pstr]"] Some
    show ?thesis by (simp add: split_prefix.simps [of _ pstr])
  qed
qed

lemma split_prefix_nonempty: "split_prefix temp pstr \<noteq> []"
proof (cases "find_char CHR '' '' pstr")
  case None
  then show ?thesis by (simp add: split_prefix.simps [of _ pstr])
next
  case (Some spos)
  then show ?thesis
    by (simp add: split_prefix.simps [of _ pstr]
          split_prefix_acc [of "temp @ [take spos pstr]"])
qed

lemma push_suffixes_fold:
  "push_suffixes temp pstr m = foldl (\<lambda>m t. push_at temp t m) m (split_prefix [] pstr)"
proof (induction temp pstr m rule: push_suffixes.induct)
  case (1 temp pstr m)
  show ?case
  proof (cases "find_char CHR '' '' pstr")
    case None
    then show ?thesis
      by (simp add: push_suffixes.simps [of _ pstr] split_prefix.simps [of _ pstr])
  next
    case (Some spos)
    from "1.IH" [OF Some] Some show ?thesis
      by (simp add: push_suffixes.simps [of _ pstr] split_prefix.simps [of _ pstr]
            split_prefix_acc [of "[take spos pstr]"])
  qed
qed

lemma push_all:
  "map_ok m \<Longrightarrow>
     map_ok (foldl (\<lambda>m t. push_at k t m) m ts)
     \<and> (\<forall>k'. map_of (foldl (\<lambda>m t. push_at k t m) m ts) k'
           = (if k' = k \<and> ts \<noteq> [] then Some (successors m k @ ts) else map_of m k'))"
proof (induction ts arbitrary: m)
  case Nil
  then show ?case by simp
next
  case (Cons t ts)
  from Cons.prems have ok1: "map_ok (push_at k t m)" by (rule map_ok_push_at)
  have s1: "successors (push_at k t m) k = successors m k @ [t]"
    by (simp add: successors_def [of "push_at k t m"] map_of_push_at [OF Cons.prems])
  from Cons.IH [OF ok1] show ?case
    by (simp add: s1 map_of_push_at [OF Cons.prems])
qed


lemma parseLine_no_separator: "find_str '' : '' line = None \<Longrightarrow> parseLine line c = (False, c)"
  by (simp add: parseLine_def)

lemma parseLine_mismatch:
  "find_str '' : '' line = Some cpos \<Longrightarrow> prefix_len c \<noteq> 0 \<Longrightarrow>
     length (split_prefix [] (take cpos line)) \<noteq> prefix_len c \<Longrightarrow>
     parseLine line c = (False, c)"
  by (simp add: parseLine_def Let_def)

lemma parseLine_match:
  assumes "find_str '' : '' line = Some cpos"
    and "prefix_len c = 0 \<or> length (split_prefix [] (take cpos line)) = prefix_len c"
  shows "parseLine line c =
           (True, c\<lparr>entries := foldl (\<lambda>m t. push_at (split_prefix [] (take cpos line)) t m)
                                  (entries c) (split_prefix [] (drop (cpos + 3) line)),
                    current_prefix := split_prefix [] (take cpos line),
                    prefix_len := length (split_prefix [] (take cpos line))\<rparr>)"
  using assms by (auto simp: parseLine_def Let_def push_suffixes_fold)

lemma getline_chars_lines:
  "getline_chars inp = (line, (rest, ok)) \<Longrightarrow>
     complete_lines inp = (if ok then line # complete_lines rest else [])"
proof (induction inp arbitrary: line rest ok)
  case Nil
  then show ?case by simp
next
  case (Cons ch inp)
  show ?case
  proof (cases "ch = CHR 0x0A")
    case True
    with Cons.prems show ?thesis by auto
  next
    case False
    obtain l' r' ok' where g: "getline_chars inp = (l', (r', ok'))"
      by (cases "getline_chars inp") auto
    with Cons.prems False have eq: "line = ch # l'" "rest = r'" "ok = ok'" by simp_all
    from Cons.IH [OF g] False show ?thesis unfolding eq by simp
  qed
qed

lemma read_loop_lines:
  "snd st \<Longrightarrow>
     read_loop st c = foldl (\<lambda>c line. snd (parseLine line c)) c (complete_lines (fst st))"
proof (induction st c rule: read_loop.induct)
  case (1 st c)
  obtain line rest ok where g: "getline_chars (fst st) = (line, (rest, ok))"
    by (cases "getline_chars (fst st)") auto
  with "1.prems" have gl: "getline st = (line, (rest, ok))" by (simp add: getline_def)
  show ?case
  proof (cases ok)
    case False
    with gl "1.prems" getline_chars_lines [OF g] show ?thesis
      by (simp add: read_loop.simps [of st c] read_loop.simps [of "(rest, False)"])
  next
    case True
    from "1.IH" [OF "1.prems" gl [symmetric]] True
    have "read_loop (rest, True) (snd (parseLine line c))
            = foldl (\<lambda>c line. snd (parseLine line c)) (snd (parseLine line c)) (complete_lines rest)"
      by simp
    with gl "1.prems" True getline_chars_lines [OF g] show ?thesis
      by (simp add: read_loop.simps [of st c])
  qed
qed

lemma complete_lines_no_newline: "CHR 0x0A \<notin> set l \<Longrightarrow> complete_lines l = []"
  by (induction l) auto

lemma complete_lines_unterminated:
  "CHR 0x0A \<notin> set tail \<Longrightarrow> complete_lines (body @ tail) = complete_lines body"
  by (induction body) (auto simp: complete_lines_no_newline)

lemma complete_lines_line:
  "CHR 0x0A \<notin> set l \<Longrightarrow> complete_lines (l @ CHR 0x0A # inp) = l # complete_lines inp"
  by (induction l) auto

lemma read_the_cat_sat:
  "read (''the cat : sat'' @ [CHR 0x0A], True) c
     = \<lparr>entries = [([''the'', ''cat''], [''sat''])], current_prefix = [''the'', ''cat''],
        prefix_len = 2\<rparr>"
  by (simp add: read_def read_loop_lines parseLine_def Let_def split_prefix.simps
        push_suffixes.simps)

section \<open>Claims on deserialization\<close>

text \<open>
  Claim C7. \<open>read\<close> resets the chain and runs \<open>parseLine\<close> on each line that ends in a
  line feed, in order, whatever \<open>parseLine\<close> returns. A line without the separator
  \<open>" : "\<close> leaves the chain as it is. On a line with the separator, when the prefix
  length is still 0, as it is until \<open>read\<close> has parsed a line, the number of tokens
  before the separator becomes the prefix length, which is positive from then on. When
  the prefix length is set and differs from the number of tokens before the separator, the
  line leaves the chain as it is. Otherwise the tokens after the separator are appended
  to the successors of the key, the other entries are kept, and the key becomes the
  current prefix.
\<close>

theorem parseLine_skips_or_appends:
  "(find_str '' : '' line = None \<longrightarrow> parseLine line c = (False, c))
   \<and> (find_str '' : '' line = Some cpos \<and> prefix_len c \<noteq> 0
        \<and> length (split_prefix [] (take cpos line)) \<noteq> prefix_len c
      \<longrightarrow> parseLine line c = (False, c))
   \<and> (find_str '' : '' line = Some cpos \<and> map_ok (entries c)
        \<and> (prefix_len c = 0 \<or> length (split_prefix [] (take cpos line)) = prefix_len c)
      \<longrightarrow> fst (parseLine line c)
          \<and> prefix_len (snd (parseLine line c)) = length (split_prefix [] (take cpos line))
          \<and> 0 < prefix_len (snd (parseLine line c))
          \<and> current_prefix (snd (parseLine line c)) = split_prefix [] (take cpos line)
          \<and> successors (entries (snd (parseLine line c))) (split_prefix [] (take cpos line))
              = successors (entries c) (split_prefix [] (take cpos line))
                  @ split_prefix [] (drop (cpos + 3) line)
          \<and> (\<forall>k. k \<noteq> split_prefix [] (take cpos line)
                \<longrightarrow> map_of (entries (snd (parseLine line c))) k = map_of (entries c) k)
          \<and> map_ok (entries (snd (parseLine line c))))
   \<and> read (inp, True) c0
       = foldl (\<lambda>c line. snd (parseLine line c))
           (c0\<lparr>entries := [], current_prefix := [], prefix_len := 0\<rparr>) (complete_lines inp)"
proof (intro conjI impI)
  assume "find_str '' : '' line = None"
  then show "parseLine line c = (False, c)" by (rule parseLine_no_separator)
next
  assume "find_str '' : '' line = Some cpos \<and> prefix_len c \<noteq> 0
        \<and> length (split_prefix [] (take cpos line)) \<noteq> prefix_len c"
  then show "parseLine line c = (False, c)" by (simp add: parseLine_mismatch)
next
  show "read (inp, True) c0
       = foldl (\<lambda>c line. snd (parseLine line c))
           (c0\<lparr>entries := [], current_prefix := [], prefix_len := 0\<rparr>) (complete_lines inp)"
    by (simp add: read_def read_loop_lines)
next
  let ?temp = "split_prefix [] (take cpos line)"
  let ?sufs = "split_prefix [] (drop (cpos + 3) line)"
  assume a: "find_str '' : '' line = Some cpos \<and> map_ok (entries c)
        \<and> (prefix_len c = 0 \<or> length ?temp = prefix_len c)"
  then have pl: "parseLine line c =
           (True, c\<lparr>entries := foldl (\<lambda>m t. push_at ?temp t m) (entries c) ?sufs,
                    current_prefix := ?temp, prefix_len := length ?temp\<rparr>)"
    by (simp add: parseLine_match)
  from a have ok: "map_ok (entries c)" by simp
  have ne: "?sufs \<noteq> []" "?temp \<noteq> []" by (rule split_prefix_nonempty)+
  note pa = push_all [OF ok, of ?temp ?sufs]
  show "fst (parseLine line c)" by (simp add: pl)
  show "prefix_len (snd (parseLine line c)) = length ?temp" by (simp add: pl)
  from ne show "0 < prefix_len (snd (parseLine line c))" by (simp add: pl)
  show "current_prefix (snd (parseLine line c)) = ?temp" by (simp add: pl)
  from pa ne show "successors (entries (snd (parseLine line c))) ?temp
              = successors (entries c) ?temp @ ?sufs"
    by (simp add: pl successors_def [of "foldl _ _ _"])
  from pa show "map_ok (entries (snd (parseLine line c)))" by (simp add: pl)
  from pa show "\<forall>k. k \<noteq> ?temp \<longrightarrow> map_of (entries (snd (parseLine line c))) k = map_of (entries c) k"
    by (simp add: pl)
qed

text \<open>
  A line without separator and a line with a one-token key leave the chain trained on
  \<open>the cat sat\<close> as it is; a line for the key \<open>the cat\<close> appends its two successors; the
  same line sets the prefix length of a chain that has none; \<open>read\<close> on the four lines
  gives one entry.
\<close>

theorem parseLine_skips_or_appends_witness:
  "find_str '' : '' ''bad line'' = None
   \<and> parseLine ''bad line'' the_cat_sat = (False, the_cat_sat)
   \<and> find_str '' : '' ''a : b'' = Some 1 \<and> prefix_len the_cat_sat \<noteq> 0
   \<and> length (split_prefix [] (take 1 ''a : b'')) \<noteq> prefix_len the_cat_sat
   \<and> parseLine ''a : b'' the_cat_sat = (False, the_cat_sat)
   \<and> find_str '' : '' ''the cat : run far'' = Some 7 \<and> map_ok (entries the_cat_sat)
   \<and> length (split_prefix [] (take 7 ''the cat : run far'')) = prefix_len the_cat_sat
   \<and> fst (parseLine ''the cat : run far'' the_cat_sat)
   \<and> successors (entries (snd (parseLine ''the cat : run far'' the_cat_sat))) [''the'', ''cat'']
       = [''sat'', ''run'', ''far'']
   \<and> prefix_len (new_chain 0) = 0
   \<and> prefix_len (snd (parseLine ''the cat : run far'' (new_chain 0))) = 2
   \<and> read (''bad line'' @ [CHR 0x0A] @ ''the cat : sat'' @ [CHR 0x0A] @ ''a : b'' @ [CHR 0x0A]
            @ ''the cat : run far'' @ [CHR 0x0A], True) (new_chain 5)
       = \<lparr>entries = [([''the'', ''cat''], [''sat'', ''run'', ''far''])],
          current_prefix = [''the'', ''cat''], prefix_len = 2\<rparr>"
proof -
  have f: "find_str '' : '' ''bad line'' = None" "find_str '' : '' ''a : b'' = Some 1"
    "find_str '' : '' ''the cat : run far'' = Some 7" "find_str '' : '' ''the cat : sat'' = Some 7"
    by simp_all
  have sp: "split_prefix [] ''a'' = [''a'']" "split_prefix [] ''the cat'' = [''the'', ''cat'']"
    "split_prefix [] ''run far'' = [''run'', ''far'']" "split_prefix [] ''sat'' = [''sat'']"
    "split_prefix [] ''b'' = [''b'']"
    by (simp_all add: split_prefix.simps)
  have ok: "map_ok (entries the_cat_sat)" "map_ok (entries (new_chain 0))"
    by (simp_all add: map_ok_def the_cat_sat_def new_chain_def)
  have s0: "successors (entries the_cat_sat) [''the'', ''cat''] = [''sat'']"
    by (simp add: successors_def the_cat_sat_def)
  have pl: "prefix_len the_cat_sat = 2" "prefix_len (new_chain 0) = 0"
    by (simp_all add: the_cat_sat_def new_chain_def)
  have rd: "read (''bad line'' @ [CHR 0x0A] @ ''the cat : sat'' @ [CHR 0x0A] @ ''a : b'' @ [CHR 0x0A]
            @ ''the cat : run far'' @ [CHR 0x0A], True) (new_chain 5)
       = \<lparr>entries = [([''the'', ''cat''], [''sat'', ''run'', ''far''])],
          current_prefix = [''the'', ''cat''], prefix_len = 2\<rparr>"
    by (simp add: parseLine_skips_or_appends [THEN conjunct2, THEN conjunct2, THEN conjunct2]
          new_chain_def parseLine_def f sp Let_def push_suffixes_fold)
  from parseLine_skips_or_appends [of "''bad line''" the_cat_sat 0 "[]" the_cat_sat]
    parseLine_skips_or_appends [of "''a : b''" the_cat_sat 1 "[]" the_cat_sat]
    parseLine_skips_or_appends [of "''the cat : run far''" the_cat_sat 7 "[]" the_cat_sat]
    parseLine_skips_or_appends [of "''the cat : run far''" "new_chain 0" 7 "[]" the_cat_sat]
    rd
  show ?thesis
    by (simp add: f sp ok s0 pl)
qed

text \<open>
  Claim C10. Characters after the last line feed of the input are never parsed: \<open>read\<close>
  gives the same chain with and without them, since it runs \<open>parseLine\<close> only on the
  lines whose line feed \<open>getline\<close> consumed.
\<close>

theorem read_drops_unterminated_line:
  assumes "CHR 0x0A \<notin> set tail"
  shows "read (body @ tail, True) c = read (body, True) c
         \<and> read (inp, True) c
             = foldl (\<lambda>c line. snd (parseLine line c))
                 (c\<lparr>entries := [], current_prefix := [], prefix_len := 0\<rparr>) (complete_lines inp)"
  using assms by (simp add: read_def read_loop_lines complete_lines_unterminated)

text \<open>
  A well-formed last line \<open>a b : c\<close> without line feed is dropped; with its line feed it
  is parsed.
\<close>

theorem read_drops_unterminated_line_witness:
  "CHR 0x0A \<notin> set ''a b : c''
   \<and> fst (parseLine ''a b : c'' (new_chain 0))
   \<and> read ((''the cat : sat'' @ [CHR 0x0A]) @ ''a b : c'', True) (new_chain 2)
       = \<lparr>entries = [([''the'', ''cat''], [''sat''])], current_prefix = [''the'', ''cat''],
          prefix_len = 2\<rparr>
   \<and> read ((''the cat : sat'' @ [CHR 0x0A]) @ ''a b : c'' @ [CHR 0x0A], True) (new_chain 2)
       = \<lparr>entries = [([''a'', ''b''], [''c'']), ([''the'', ''cat''], [''sat''])],
          current_prefix = [''a'', ''b''], prefix_len = 2\<rparr>"
proof -
  have h: "CHR 0x0A \<notin> set ''a b : c''" by simp
  have wf: "fst (parseLine ''a b : c'' (new_chain 0))"
    by (simp add: parseLine_def Let_def split_prefix.simps new_chain_def)
  have full: "read ((''the cat : sat'' @ [CHR 0x0A]) @ ''a b : c'' @ [CHR 0x0A], True) (new_chain 2)
       = \<lparr>entries = [([''a'', ''b''], [''c'']), ([''the'', ''cat''], [''sat''])],
          current_prefix = [''a'', ''b''], prefix_len = 2\<rparr>"
    by (simp add: read_def read_loop_lines parseLine_def Let_def split_prefix.simps
          push_suffixes.simps new_chain_def)
  from read_drops_unterminated_line [OF h, of "''the cat : sat'' @ [CHR 0x0A]" "new_chain 2" "[]"]
  have "read ((''the cat : sat'' @ [CHR 0x0A]) @ ''a b : c'', True) (new_chain 2)
       = read (''the cat : sat'' @ [CHR 0x0A], True) (new_chain 2)"
    by (rule conjunct1)
  with h wf full show ?thesis by (simp only: read_the_cat_sat simp_thms)
qed

section \<open>The state invariant\<close>

declare add_loop.simps [simp del]

lemma push_at_inv:
  "\<forall>(k, v) \<in> set m. length k = L \<and> v \<noteq> [] \<Longrightarrow> length t = L \<Longrightarrow>
     \<forall>(k, v) \<in> set (push_at t s m). length k = L \<and> v \<noteq> []"
proof (induction m)
  case Nil
  then show ?case by simp
next
  case (Cons e m)
  obtain k' v' where e: "e = (k', v')" by (cases e)
  from Cons.prems e have hd: "length k' = L" "v' \<noteq> []"
    and tl: "\<forall>(k, v) \<in> set m. length k = L \<and> v \<noteq> []" by simp_all
  from Cons.IH [OF tl Cons.prems(2)] hd tl Cons.prems(2) show ?case
    unfolding e by simp
qed

lemma push_all_inv:
  "\<forall>(k, v) \<in> set m. length k = L \<and> v \<noteq> [] \<Longrightarrow> length t = L \<Longrightarrow>
     \<forall>(k, v) \<in> set (foldl (\<lambda>m s. push_at t s m) m ss). length k = L \<and> v \<noteq> []"
proof (induction ss arbitrary: m)
  case Nil
  then show ?case by simp
next
  case (Cons s ss)
  from push_at_inv [OF Cons.prems] have
    "\<forall>(k, v) \<in> set (push_at t s m). length k = L \<and> v \<noteq> []" .
  from Cons.IH [OF this Cons.prems(2)] show ?case by simp
qed

lemma add_inv: "chain_inv c \<Longrightarrow> add t c = Inr c' \<Longrightarrow> chain_inv c' \<and> prefix_len c' = prefix_len c"
proof -
  assume inv: "chain_inv c" and a: "add t c = Inr c'"
  show ?thesis
  proof (cases "length (current_prefix c) = prefix_len c")
    case False
    with a have "c' = c\<lparr>current_prefix := current_prefix c @ [t]\<rparr>" by (simp add: add_def)
    with inv False show ?thesis by (simp add: chain_inv_def)
  next
    case True
    with a obtain x rest where cp: "current_prefix c = x # rest"
      and c': "c' = c\<lparr>entries := push_at (current_prefix c) t (entries c),
                       current_prefix := rest @ [t]\<rparr>"
      by (auto simp: add_def split: list.splits)
    from inv have "\<forall>(k, v) \<in> set (entries c). length k = prefix_len c \<and> v \<noteq> []"
      by (simp add: chain_inv_def)
    from push_at_inv [OF this True, of t] True cp show ?thesis
      by (simp add: c' chain_inv_def)
  qed
qed

lemma add_ok: "0 < prefix_len c \<Longrightarrow> \<exists>c'. add t c = Inr c'"
  by (cases "current_prefix c") (auto simp: add_def)

lemma add_loop_inv:
  "chain_inv c \<Longrightarrow> add_loop inp c = Inr c' \<Longrightarrow> chain_inv c' \<and> prefix_len c' = prefix_len c"
proof (induction inp c rule: add_loop.induct)
  case (1 inp c)
  show ?case
  proof (cases "extract_token inp")
    case None
    with "1.prems" show ?thesis by (simp add: add_loop.simps [of inp])
  next
    case (Some br)
    obtain buf rest where br: "br = (buf, rest)" by (cases br)
    from "1.prems"(2) Some br obtain c1 where a: "add buf c = Inr c1"
      and rec: "add_loop rest c1 = Inr c'"
      by (auto simp: add_loop.simps [of inp] split: sum.splits)
    from add_inv [OF "1.prems"(1) a] have inv1: "chain_inv c1" and pl: "prefix_len c1 = prefix_len c"
      by simp_all
    from "1.IH" [OF Some br [symmetric] a inv1 rec] pl show ?thesis by simp
  qed
qed

lemma add_loop_ok:
  "chain_inv c \<Longrightarrow> 0 < prefix_len c \<Longrightarrow> \<exists>c'. add_loop inp c = Inr c'"
proof (induction inp c rule: add_loop.induct)
  case (1 inp c)
  show ?case
  proof (cases "extract_token inp")
    case None
    then show ?thesis by (simp add: add_loop.simps [of inp])
  next
    case (Some br)
    obtain buf rest where br: "br = (buf, rest)" by (cases br)
    from add_ok [OF "1.prems"(2)] obtain c1 where a: "add buf c = Inr c1" by blast
    from add_inv [OF "1.prems"(1) a] "1.prems"(2)
    have inv1: "chain_inv c1" and pl: "0 < prefix_len c1" by simp_all
    from "1.IH" [OF Some br [symmetric] a inv1 pl] Some br a show ?thesis
      by (simp add: add_loop.simps [of inp])
  qed
qed

lemma generate_inv:
  assumes inv: "chain_inv c" and g: "generate s n p c w = Inr (s', c', w')"
  shows "chain_inv c'"
proof -
  from g obtain q w1 where
    start: "(if isValidPrefix c p then Inr (p, w) else randomPrefix c w) = Inr (q, w1)"
    by (auto simp: generate_def split: sum.splits)
  have vq: "isValidPrefix c q"
  proof (cases "isValidPrefix c p")
    case True
    with start show ?thesis by simp
  next
    case False
    with start have rp: "randomPrefix c w = Inr (q, w1)" by simp
    then have "entries c \<noteq> []" by (auto simp: randomPrefix_empty)
    from randomPrefix_valid [OF this, of w] rp show ?thesis by auto
  qed
  let ?c1 = "c\<lparr>current_prefix := q\<rparr>"
  let ?w2 = "if \<not> is_seeded w1 then seed False w1 else w1"
  from g start obtain s1 s2 where
    gl: "generate_loop ?c1 ?w2 s1 (prefix_len c) n = Inr (s2, c', w')"
    by (auto simp: generate_def Let_def split: sum.splits if_splits)
  from vq have "isValidPrefix ?c1 (current_prefix ?c1)" by (simp add: isValidPrefix_def)
  with generate_loop_words [OF gl]
  have e: "entries c' = entries c" and pl: "prefix_len c' = prefix_len c"
    and v: "isValidPrefix c' (current_prefix c')" by simp_all
  from v e obtain v' where "map_of (entries c) (current_prefix c') = Some v'"
    by (auto simp: isValidPrefix_def)
  from chain_inv_lookup [OF inv this] inv e pl show ?thesis by (simp add: chain_inv_def)
qed

lemma generate_random_inv:
  "chain_inv c \<Longrightarrow> generate_random s n c w = Inr (s', c', w') \<Longrightarrow> chain_inv c'"
  by (auto simp: generate_random_def split: sum.splits dest: generate_inv)

lemma parseLine_inv: "chain_inv c \<and> (prefix_len c = 0 \<longrightarrow> entries c = []) \<Longrightarrow>
   chain_inv (snd (parseLine line c)) \<and> (prefix_len (snd (parseLine line c)) = 0 \<longrightarrow> entries (snd (parseLine line c)) = [])"
proof (cases "find_str '' : '' line")
  case None
  assume "chain_inv c \<and> (prefix_len c = 0 \<longrightarrow> entries c = [])"
  with None show ?thesis by (simp add: parseLine_no_separator)
next
  case (Some cpos)
  assume a: "chain_inv c \<and> (prefix_len c = 0 \<longrightarrow> entries c = [])"
  let ?temp = "split_prefix [] (take cpos line)"
  show ?thesis
  proof (cases "prefix_len c = 0 \<or> length ?temp = prefix_len c")
    case False
    with Some a show ?thesis by (simp add: parseLine_mismatch)
  next
    case True
    with a have "\<forall>(k, v) \<in> set (entries c). length k = length ?temp \<and> v \<noteq> []"
      by (auto simp: chain_inv_def)
    from push_all_inv [OF this refl] split_prefix_nonempty [of "[]" "take cpos line"] show ?thesis
      by (simp add: parseLine_match [OF Some True] chain_inv_def)
  qed
qed

lemma read_inv: "chain_inv (read st c)"
proof -
  let ?P = "\<lambda>c. chain_inv c \<and> (prefix_len c = 0 \<longrightarrow> entries c = [])"
  have step: "?P c \<Longrightarrow> ?P (foldl (\<lambda>c line. snd (parseLine line c)) c ls)" for c ls
    by (induction ls arbitrary: c) (simp_all add: parseLine_inv del: split_paired_All)
  let ?c0 = "c\<lparr>entries := [], current_prefix := [], prefix_len := 0\<rparr>"
  have P0: "?P ?c0" by (simp add: chain_inv_def)
  show ?thesis
  proof (cases "snd st")
    case True
    with step [OF P0] show ?thesis by (simp add: read_def read_loop_lines)
  next
    case False
    with P0 show ?thesis by (simp add: read_def read_loop.simps [of st])
  qed
qed

text \<open>
  Claim C9. The state invariant holds of a freshly constructed chain. From a chain where
  it holds, it holds of every chain that \<open>add\<close> on a token, \<open>add\<close> on a stream, and both
  forms of \<open>generate\<close> return, and of the chain after the cursor setter; both forms of
  \<open>add\<close> do return when the prefix length is positive. It holds after \<open>read\<close> and after
  the setter of the prefix length, whatever the chain before. \<open>write\<close> only reads the
  chain, and returns nothing but the stream.
\<close>

theorem chain_inv_preserved:
  "chain_inv (new_chain len)
   \<and> (chain_inv c \<longrightarrow>
         (\<forall>c'. add t c = Inr c' \<longrightarrow> chain_inv c')
       \<and> (\<forall>c'. add_stream inp resetprefix c = Inr c' \<longrightarrow> chain_inv c')
       \<and> (0 < prefix_len c \<longrightarrow>
             (\<exists>c'. add t c = Inr c') \<and> (\<exists>c'. add_stream inp resetprefix c = Inr c'))
       \<and> (\<forall>s' c' w'. generate s n p c w = Inr (s', c', w') \<longrightarrow> chain_inv c')
       \<and> (\<forall>s' c' w'. generate_random s n c w = Inr (s', c', w') \<longrightarrow> chain_inv c')
       \<and> chain_inv (snd (currentPrefix_set p c)))
   \<and> chain_inv (read st c)
   \<and> chain_inv (snd (prefixLength_set len c))"
proof (intro conjI impI allI)
  show "chain_inv (new_chain len)" by (simp add: chain_inv_def new_chain_def)
  show "chain_inv (read st c)" by (rule read_inv)
  show "chain_inv (snd (prefixLength_set len c))"
    by (simp add: prefixLength_set_def chain_inv_def)
next
  fix c'
  assume "chain_inv c" "add t c = Inr c'"
  then show "chain_inv c'" by (simp add: add_inv)
next
  fix c'
  assume inv: "chain_inv c" and a: "add_stream inp resetprefix c = Inr c'"
  from inv have "chain_inv (if resetprefix then c\<lparr>current_prefix := []\<rparr> else c)"
    by (simp add: chain_inv_def)
  from add_loop_inv [OF this a [unfolded add_stream_def]] show "chain_inv c'" by simp
next
  assume "chain_inv c" "0 < prefix_len c"
  then show "\<exists>c'. add t c = Inr c'" by (simp add: add_ok)
next
  assume inv: "chain_inv c" and pl: "0 < prefix_len c"
  from inv have i: "chain_inv (if resetprefix then c\<lparr>current_prefix := []\<rparr> else c)"
    by (simp add: chain_inv_def)
  from pl have p: "0 < prefix_len (if resetprefix then c\<lparr>current_prefix := []\<rparr> else c)"
    by simp
  from add_loop_ok [OF i p] show "\<exists>c'. add_stream inp resetprefix c = Inr c'"
    by (simp only: add_stream_def)
next
  fix s' c' w'
  assume "chain_inv c" "generate s n p c w = Inr (s', c', w')"
  then show "chain_inv c'" by (rule generate_inv)
next
  fix s' c' w'
  assume "chain_inv c" "generate_random s n c w = Inr (s', c', w')"
  then show "chain_inv c'" by (rule generate_random_inv)
next
  assume inv: "chain_inv c"
  show "chain_inv (snd (currentPrefix_set p c))"
  proof (cases "isValidPrefix c p")
    case False
    with inv show ?thesis by (simp add: currentPrefix_set_def)
  next
    case True
    then obtain v where "map_of (entries c) p = Some v" by (auto simp: isValidPrefix_def)
    from chain_inv_lookup [OF inv this] inv True show ?thesis
      by (simp add: currentPrefix_set_def chain_inv_def)
  qed
qed

text \<open>
  The invariant holds of the chain trained on \<open>the cat sat\<close> and of the chains the
  operations give from it.
\<close>

theorem chain_inv_preserved_witness:
  "chain_inv the_cat_sat \<and> 0 < prefix_len the_cat_sat
   \<and> add ''on'' the_cat_sat
       = Inr \<lparr>entries = [([''cat'', ''sat''], [''on'']), ([''the'', ''cat''], [''sat''])],
               current_prefix = [''sat'', ''on''], prefix_len = 2\<rparr>
   \<and> chain_inv \<lparr>entries = [([''cat'', ''sat''], [''on'']), ([''the'', ''cat''], [''sat''])],
                  current_prefix = [''sat'', ''on''], prefix_len = 2\<rparr>
   \<and> add_stream ''on the'' False the_cat_sat
       = Inr \<lparr>entries = [([''cat'', ''sat''], [''on'']), ([''sat'', ''on''], [''the'']),
                          ([''the'', ''cat''], [''sat''])],
               current_prefix = [''on'', ''the''], prefix_len = 2\<rparr>
   \<and> chain_inv \<lparr>entries = [([''cat'', ''sat''], [''on'']), ([''sat'', ''on''], [''the'']),
                             ([''the'', ''cat''], [''sat''])],
                  current_prefix = [''on'', ''the''], prefix_len = 2\<rparr>
   \<and> generate [] 3 [''the'', ''cat''] the_cat_sat world0
       = Inr ([Str ''the'', Character CHR '' '', Str ''cat'', Character CHR '' '',
               Str ''sat'', Character CHR '' '', Endl],
              the_cat_sat\<lparr>current_prefix := [''the'', ''cat'']\<rparr>,
              snd (random_next (seed False world0)))
   \<and> chain_inv (the_cat_sat\<lparr>current_prefix := [''the'', ''cat'']\<rparr>)
   \<and> chain_inv (snd (currentPrefix_set [''the'', ''cat''] the_cat_sat))
   \<and> chain_inv (read (''the cat : sat'' @ [CHR 0x0A], True) the_cat_sat)
   \<and> chain_inv (snd (prefixLength_set 3 the_cat_sat))"
proof -
  have h: "chain_inv the_cat_sat" "0 < prefix_len the_cat_sat"
    by (simp_all add: chain_inv_def the_cat_sat_def)
  have a: "add ''on'' the_cat_sat
       = Inr \<lparr>entries = [([''cat'', ''sat''], [''on'']), ([''the'', ''cat''], [''sat''])],
               current_prefix = [''sat'', ''on''], prefix_len = 2\<rparr>"
    by (simp add: add_def the_cat_sat_def)
  have b: "add_stream ''on the'' False the_cat_sat
       = Inr \<lparr>entries = [([''cat'', ''sat''], [''on'']), ([''sat'', ''on''], [''the'']),
                          ([''the'', ''cat''], [''sat''])],
               current_prefix = [''on'', ''the''], prefix_len = 2\<rparr>"
    by (simp add: add_stream_def add_loop.simps extract_token_def isspace_def Let_def
          add_def the_cat_sat_def)
  have g: "generate [] 3 [''the'', ''cat''] the_cat_sat world0
       = Inr ([Str ''the'', Character CHR '' '', Str ''cat'', Character CHR '' '',
               Str ''sat'', Character CHR '' '', Endl],
              the_cat_sat\<lparr>current_prefix := [''the'', ''cat'']\<rparr>,
              snd (random_next (seed False world0)))"
    by (simp add: the_cat_sat_generate) (simp add: world0_def)
  from chain_inv_preserved [of 3 the_cat_sat "''on''" "''on the''" False "[]" 3
         "[''the'', ''cat'']" world0 "(''the cat : sat'' @ [CHR 0x0A], True)"] h a b g
  show ?thesis by simp
qed

section \<open>Training on a token stream\<close>

lemma add_all_snoc:
  "add_all (xs @ [x]) c = (case add_all xs c of Inl e \<Rightarrow> Inl e | Inr c' \<Rightarrow> add x c')"
  by (induction xs arbitrary: c) (simp_all split: sum.splits)

lemma windows_snoc:
  assumes "L \<le> Suc (length xs)"
  shows "windows L (xs @ [x]) = windows L xs @ [drop (Suc (length xs) - L) (xs @ [x])]"
proof -
  let ?n = "Suc (length xs) - L"
  from assms have cnt: "Suc (length (xs @ [x])) - L = Suc ?n" by simp
  have old: "take L (drop i (xs @ [x])) = take L (drop i xs)" if "i < ?n" for i
    using that by simp
  from assms have "length (drop ?n (xs @ [x])) = L" by simp
  then have new: "take L (drop ?n (xs @ [x])) = drop ?n (xs @ [x])" by simp
  have "windows L (xs @ [x])
          = map (\<lambda>i. take L (drop i (xs @ [x]))) [0 ..< ?n] @ [take L (drop ?n (xs @ [x]))]"
    unfolding windows_def cnt by simp
  also have "map (\<lambda>i. take L (drop i (xs @ [x]))) [0 ..< ?n] = windows L xs"
    unfolding windows_def using old by simp
  finally show ?thesis by (simp only: new)
qed

lemma windows_short: "length ts < L \<Longrightarrow> windows L ts = []"
  by (simp add: windows_def)

lemma map_ok_card: "map_ok m \<Longrightarrow> length m = card (fst ` set m)"
proof -
  assume "map_ok m"
  then have "distinct (map fst m)" by (simp add: map_ok_def strict_sorted_iff)
  from distinct_card [OF this] show ?thesis by simp
qed

lemma add_all_fresh:
  assumes L: "0 < L"
  shows "\<exists>c'. add_all ts (new_chain L) = Inr c' \<and> prefix_len c' = L
           \<and> current_prefix c' = drop (length ts - L) ts \<and> map_ok (entries c')
           \<and> fst ` set (entries c') = set (windows L (butlast ts))"
proof (induction ts rule: rev_induct)
  case Nil
  from L show ?case by (simp add: new_chain_def map_ok_def windows_def)
next
  case (snoc x xs)
  then obtain c1 where run: "add_all xs (new_chain L) = Inr c1" and pl: "prefix_len c1 = L"
    and cp: "current_prefix c1 = drop (length xs - L) xs" and ok: "map_ok (entries c1)"
    and keys: "fst ` set (entries c1) = set (windows L (butlast xs))"
    by blast
  show ?case
  proof (cases "L \<le> length xs")
    case False
    with cp pl have "add x c1 = Inr (c1\<lparr>current_prefix := xs @ [x]\<rparr>)"
      by (simp add: add_def)
    moreover from False have "windows L xs = []" "windows L (butlast xs) = []"
      by (simp_all add: windows_short)
    ultimately show ?thesis using run pl ok keys False
      by (simp add: add_all_snoc)
  next
    case True
    with L have ne: "xs \<noteq> []" by auto
    from True L cp have "current_prefix c1 \<noteq> []" by auto
    then obtain y rest where cpc: "current_prefix c1 = y # rest"
      by (cases "current_prefix c1") auto
    from cp cpc have rest: "rest = drop (Suc (length xs - L)) xs"
      by (metis drop_Suc list.sel(3) tl_drop)
    from True cp pl have len: "length (current_prefix c1) = prefix_len c1" by simp
    from len cpc have a: "add x c1 =
        Inr (c1\<lparr>entries := push_at (current_prefix c1) x (entries c1),
                 current_prefix := rest @ [x]\<rparr>)"
      by (simp add: add_def)
    from ne have "xs = butlast xs @ [last xs]" by simp
    moreover from True ne have "L \<le> Suc (length (butlast xs))" by simp
    ultimately have "windows L xs
        = windows L (butlast xs) @ [drop (Suc (length (butlast xs)) - L) xs]"
      using windows_snoc [of L "butlast xs" "last xs"] by simp
    with ne have w: "set (windows L xs) = insert (drop (length xs - L) xs) (set (windows L (butlast xs)))"
      by simp
    from True L have "drop (length (xs @ [x]) - L) (xs @ [x]) = rest @ [x]"
      by (simp add: rest Suc_diff_le)
    with run a pl ok keys w cp show ?thesis
      by (simp add: add_all_snoc keys_push_at map_ok_push_at)
  qed
qed

text \<open>
  Claim C1, as amended. When \<open>current_prefix\<close> holds exactly \<open>prefix_len\<close> tokens (and
  \<open>prefix_len\<close> is positive), \<open>add\<close> appends the token to the successors of the current
  prefix, creating the entry when the key is absent, keeps the other entries, and drops
  the oldest token of \<open>current_prefix\<close>; in all cases the token goes to the back of
  \<open>current_prefix\<close>. After feeding a token stream into a fresh chain of positive prefix
  length \<open>L\<close>, the keys of the mapping are the windows of length \<open>L\<close> of the stream
  without its last token, that is the windows that a token follows, and the number of
  entries is the number of distinct such windows. There is no entry while at most \<open>L\<close>
  tokens have been seen.
\<close>

theorem add_sliding_window:
  "(length (current_prefix c) = prefix_len c \<and> 0 < prefix_len c \<and> map_ok (entries c) \<longrightarrow>
      (\<exists>c'. add t c = Inr c'
         \<and> map_of (entries c') (current_prefix c)
             = Some (successors (entries c) (current_prefix c) @ [t])
         \<and> (\<forall>k. k \<noteq> current_prefix c \<longrightarrow> map_of (entries c') k = map_of (entries c) k)
         \<and> current_prefix c' = tl (current_prefix c) @ [t]
         \<and> prefix_len c' = prefix_len c))
   \<and> (length (current_prefix c) \<noteq> prefix_len c \<longrightarrow>
        add t c = Inr (c\<lparr>current_prefix := current_prefix c @ [t]\<rparr>))
   \<and> (0 < L \<longrightarrow>
        (\<exists>c'. add_all ts (new_chain L) = Inr c'
           \<and> length (entries c') = card (set (windows L (butlast ts)))
           \<and> fst ` set (entries c') = set (windows L (butlast ts))
           \<and> (length ts \<le> L \<longrightarrow> entries c' = [])))"
proof (intro conjI impI)
  assume a: "length (current_prefix c) = prefix_len c \<and> 0 < prefix_len c \<and> map_ok (entries c)"
  then obtain y rest where cp: "current_prefix c = y # rest"
    by (cases "current_prefix c") auto
  from a have ok: "map_ok (entries c)" by simp
  from a cp have "add t c = Inr (c\<lparr>entries := push_at (current_prefix c) t (entries c),
                                   current_prefix := rest @ [t]\<rparr>)"
    by (simp add: add_def)
  then show "\<exists>c'. add t c = Inr c'
         \<and> map_of (entries c') (current_prefix c)
             = Some (successors (entries c) (current_prefix c) @ [t])
         \<and> (\<forall>k. k \<noteq> current_prefix c \<longrightarrow> map_of (entries c') k = map_of (entries c) k)
         \<and> current_prefix c' = tl (current_prefix c) @ [t]
         \<and> prefix_len c' = prefix_len c"
    by (simp add: map_of_push_at [OF ok] cp)
next
  assume "length (current_prefix c) \<noteq> prefix_len c"
  then show "add t c = Inr (c\<lparr>current_prefix := current_prefix c @ [t]\<rparr>)"
    by (simp add: add_def)
next
  assume L: "0 < L"
  from add_all_fresh [OF L, of ts] obtain c' where run: "add_all ts (new_chain L) = Inr c'"
    and ok: "map_ok (entries c')"
    and keys: "fst ` set (entries c') = set (windows L (butlast ts))"
    by blast
  have "entries c' = []" if "length ts \<le> L"
  proof -
    from that L have "length (butlast ts) < L" by (cases ts rule: rev_cases) auto
    with keys show ?thesis by (simp add: windows_short)
  qed
  with run keys map_ok_card [OF ok]
  show "\<exists>c'. add_all ts (new_chain L) = Inr c'
           \<and> length (entries c') = card (set (windows L (butlast ts)))
           \<and> fst ` set (entries c') = set (windows L (butlast ts))
           \<and> (length ts \<le> L \<longrightarrow> entries c' = [])"
    by simp
qed

text \<open>
  The chain trained on \<open>the cat sat\<close> takes the token \<open>on\<close> with a full window; a fresh
  chain takes its first token with a window that is not full; a stream of seven tokens
  with a repeated window gives four entries.
\<close>

theorem add_sliding_window_witness:
  "(length (current_prefix the_cat_sat) = prefix_len the_cat_sat \<and> 0 < prefix_len the_cat_sat
      \<and> map_ok (entries the_cat_sat))
   \<and> (\<exists>c'. add ''on'' the_cat_sat = Inr c'
         \<and> map_of (entries c') [''cat'', ''sat''] = Some [''on'']
         \<and> map_of (entries c') [''the'', ''cat''] = Some [''sat'']
         \<and> current_prefix c' = [''sat'', ''on''])
   \<and> length (current_prefix (new_chain 2)) \<noteq> prefix_len (new_chain 2)
   \<and> add ''the'' (new_chain 2) = Inr ((new_chain 2)\<lparr>current_prefix := [''the'']\<rparr>)
   \<and> (0::nat) < 2
   \<and> (\<exists>c'. add_all [''the'', ''cat'', ''sat'', ''on'', ''the'', ''cat'', ''sat''] (new_chain 2)
              = Inr c' \<and> length (entries c') = 4)
   \<and> windows 2 (butlast [''the'', ''cat'', ''sat'', ''on'', ''the'', ''cat'', ''sat''])
       = [[''the'', ''cat''], [''cat'', ''sat''], [''sat'', ''on''], [''on'', ''the''],
          [''the'', ''cat'']]"
proof -
  let ?ts = "[''the'', ''cat'', ''sat'', ''on'', ''the'', ''cat'', ''sat'']"
  have w: "windows 2 (butlast ?ts)
       = [[''the'', ''cat''], [''cat'', ''sat''], [''sat'', ''on''], [''on'', ''the''],
          [''the'', ''cat'']]"
    by (simp add: windows_def upt_rec)
  have "card (set (windows 2 (butlast ?ts))) = length (remdups (windows 2 (butlast ?ts)))"
    by (rule List.card_set)
  also have "\<dots> = 4" unfolding w by simp
  finally have cw: "card (set (windows 2 (butlast ?ts))) = 4" .
  have hyp1: "length (current_prefix the_cat_sat) = prefix_len the_cat_sat
      \<and> 0 < prefix_len the_cat_sat \<and> map_ok (entries the_cat_sat)"
    by (simp add: the_cat_sat_def map_ok_def)
  have hyp2: "length (current_prefix (new_chain 2)) \<noteq> prefix_len (new_chain 2)"
    by (simp add: new_chain_def)
  have hyp3: "(0::nat) < 2" by simp
  have vals: "successors (entries the_cat_sat) [''cat'', ''sat''] = []"
    "current_prefix the_cat_sat = [''cat'', ''sat'']"
    "map_of (entries the_cat_sat) [''the'', ''cat''] = Some [''sat'']"
    by (simp_all add: the_cat_sat_def successors_def)
  from add_sliding_window [of the_cat_sat "''on''", THEN conjunct1, THEN mp, OF hyp1]
  obtain c1 where a1: "add ''on'' the_cat_sat = Inr c1"
    and m1: "map_of (entries c1) (current_prefix the_cat_sat)
               = Some (successors (entries the_cat_sat) (current_prefix the_cat_sat) @ [''on''])"
    and o1: "\<forall>k. k \<noteq> current_prefix the_cat_sat
               \<longrightarrow> map_of (entries c1) k = map_of (entries the_cat_sat) k"
    and cp1: "current_prefix c1 = tl (current_prefix the_cat_sat) @ [''on'']"
    by blast
  from m1 o1 cp1 have c1: "map_of (entries c1) [''cat'', ''sat''] = Some [''on'']
         \<and> map_of (entries c1) [''the'', ''cat''] = Some [''sat'']
         \<and> current_prefix c1 = [''sat'', ''on'']"
    by (simp add: vals)
  from add_sliding_window [of "new_chain 2" "''the''", THEN conjunct2, THEN conjunct1, THEN mp,
         OF hyp2]
  have c2: "add ''the'' (new_chain 2) = Inr ((new_chain 2)\<lparr>current_prefix := [''the'']\<rparr>)"
    by (simp add: new_chain_def)
  from add_sliding_window [of _ _ 2 ?ts, THEN conjunct2, THEN conjunct2, THEN mp, OF hyp3]
  obtain c3 where a3: "add_all ?ts (new_chain 2) = Inr c3"
    and l3: "length (entries c3) = card (set (windows 2 (butlast ?ts)))"
    by blast
  from a3 l3 have c3: "\<exists>c'. add_all ?ts (new_chain 2) = Inr c' \<and> length (entries c') = 4"
    by (simp only: cw) blast
  from a1 c1 have c1': "\<exists>c'. add ''on'' the_cat_sat = Inr c'
         \<and> map_of (entries c') [''cat'', ''sat''] = Some [''on'']
         \<and> map_of (entries c') [''the'', ''cat''] = Some [''sat'']
         \<and> current_prefix c' = [''sat'', ''on'']"
    by blast
  from hyp1 c1' hyp2 c2 hyp3 c3 w show ?thesis by blast
qed

text \<open>
  Claim C1 as stated fails: the stream \<open>the cat sat\<close> has two distinct windows of length
  2, and the chain trained on it has one entry, since no token follows the last window.
  And with prefix length 0 the empty \<open>current_prefix\<close> holds exactly \<open>prefix_len\<close> tokens,
  where \<open>add\<close> calls \<open>pop_front()\<close> on the empty deque.
\<close>

theorem window_count_counterexample:
  "add_all [''the'', ''cat'', ''sat''] (new_chain 2) = Inr the_cat_sat
   \<and> length (entries the_cat_sat) = 1
   \<and> card (set (windows 2 [''the'', ''cat'', ''sat''])) = 2
   \<and> length (current_prefix (new_chain 0)) = prefix_len (new_chain 0)
   \<and> add ''the'' (new_chain 0) = Inl Pop_Front_Empty"
  by (simp add: the_cat_sat_def add_def new_chain_def windows_def upt_rec)

section \<open>Reading back what was written\<close>

lemma find_char_absent: "x \<notin> set t \<Longrightarrow> find_char x t = None"
  by (induction t) auto

lemma find_char_first: "x \<notin> set t \<Longrightarrow> find_char x (t @ x # r) = Some (length t)"
  by (induction t) auto

lemma split_prefix_join:
  "ts \<noteq> [] \<Longrightarrow> \<forall>t \<in> set ts. CHR '' '' \<notin> set t \<Longrightarrow> split_prefix acc (join_sp ts) = acc @ ts"
proof (induction ts arbitrary: acc rule: join_sp.induct)
  case 1
  then show ?case by simp
next
  case (2 t)
  then show ?case by (simp add: split_prefix.simps [of _ t] find_char_absent)
next
  case (3 t u ts)
  from "3.prems" have t: "CHR '' '' \<notin> set t" and rest: "\<forall>t \<in> set (u # ts). CHR '' '' \<notin> set t"
    by simp_all
  from "3.IH" [OF _ rest, of "acc @ [t]"] t show ?case
    by (simp add: split_prefix.simps [of _ "t @ CHR '' '' # join_sp (u # ts)"] find_char_first)
qed

lemma find_str_skip:
  "CHR '' '' \<notin> set t \<Longrightarrow>
     find_str '' : '' (t @ r) = map_option (\<lambda>i. length t + i) (find_str '' : '' r)"
proof (induction t)
  case Nil
  show ?case by (simp add: option.map_ident)
next
  case (Cons ch t)
  then show ?case by (simp add: option.map_comp comp_def)
qed

lemma not_colon_start:
  "CHR '' '' \<notin> set u \<Longrightarrow> u \<noteq> '':'' \<Longrightarrow> \<not> starts_with '': '' (u @ CHR '' '' # r)"
proof (cases u)
  case Nil
  then show ?thesis by simp
next
  case (Cons ch u')
  assume "CHR '' '' \<notin> set u" "u \<noteq> '':''"
  with Cons show ?thesis by (cases u') auto
qed

lemma join_sp_Cons: "ts \<noteq> [] \<Longrightarrow> join_sp (t # ts) = t @ CHR '' '' # join_sp ts"
  by (cases ts) simp_all

lemma find_str_entry:
  "\<forall>x \<in> set (t # ts). CHR '' '' \<notin> set x \<Longrightarrow> '':'' \<notin> set ts \<Longrightarrow>
     find_str '' : '' (join_sp (t # ts) @ '' : '' @ r) = Some (length (join_sp (t # ts)))"
proof (induction ts arbitrary: t)
  case Nil
  then show ?case by (simp add: find_str_skip)
next
  case (Cons u ts)
  from Cons.prems have t: "CHR '' '' \<notin> set t" and u: "CHR '' '' \<notin> set u" "u \<noteq> '':''"
    and rest: "\<forall>x \<in> set (u # ts). CHR '' '' \<notin> set x" "'':'' \<notin> set ts"
    by auto
  obtain r' where r': "join_sp (u # ts) @ '' : '' @ r = u @ CHR '' '' # r'"
    by (cases ts) simp_all
  have ns: "\<not> starts_with '': '' (join_sp (u # ts) @ '' : '' @ r)"
    unfolding r' by (rule not_colon_start [OF u])
  have "find_str '' : '' (join_sp (t # u # ts) @ '' : '' @ r)
          = map_option (\<lambda>i. length t + i)
              (find_str '' : '' (CHR '' '' # join_sp (u # ts) @ '' : '' @ r))"
    using find_str_skip [OF t, of "CHR '' '' # join_sp (u # ts) @ '' : '' @ r"] by simp
  also have "find_str '' : '' (CHR '' '' # join_sp (u # ts) @ '' : '' @ r)
          = map_option Suc (find_str '' : '' (join_sp (u # ts) @ '' : '' @ r))"
    using ns by simp
  also have "find_str '' : '' (join_sp (u # ts) @ '' : '' @ r) = Some (length (join_sp (u # ts)))"
    by (rule Cons.IH [OF rest])
  finally show ?case by simp
qed

lemma push_at_last:
  "\<forall>x \<in> fst ` set xs. x < k \<Longrightarrow> push_at k s xs = xs @ [(k, [s])]"
  by (induction xs) (auto simp: not_less_iff_gr_or_eq)

lemma push_at_last_again:
  "\<forall>x \<in> fst ` set xs. x < k \<Longrightarrow> push_at k s (xs @ [(k, v)]) = xs @ [(k, v @ [s])]"
  by (induction xs) (auto simp: not_less_iff_gr_or_eq)

lemma push_all_last_again:
  "\<forall>x \<in> fst ` set xs. x < k \<Longrightarrow>
     foldl (\<lambda>m t. push_at k t m) (xs @ [(k, v)]) ss = xs @ [(k, v @ ss)]"
  by (induction ss arbitrary: v) (simp_all add: push_at_last_again)

lemma push_all_last:
  "\<forall>x \<in> fst ` set xs. x < k \<Longrightarrow> ss \<noteq> [] \<Longrightarrow>
     foldl (\<lambda>m t. push_at k t m) xs ss = xs @ [(k, ss)]"
  by (cases ss) (simp_all add: push_at_last push_all_last_again)


lemma parse_entry_line:
  assumes k: "k \<noteq> []" and v: "v \<noteq> []"
    and ck: "\<forall>t \<in> set k. clean_token t" and cv: "\<forall>t \<in> set v. clean_token t"
    and colon: "'':'' \<notin> set (tl k)"
    and pl: "prefix_len c = 0 \<or> length k = prefix_len c"
    and lt: "\<forall>x \<in> fst ` set (entries c). x < k"
  shows "snd (parseLine (entry_line (k, v)) c)
           = c\<lparr>entries := entries c @ [(k, v)], current_prefix := k, prefix_len := length k\<rparr>"
proof -
  let ?line = "entry_line (k, v)"
  let ?n = "length (join_sp k)"
  from k obtain t ts where kt: "k = t # ts" by (cases k) auto
  from ck colon have f: "find_str '' : '' ?line = Some ?n"
    unfolding entry_line_def kt fst_conv snd_conv
    by (intro find_str_entry) (simp_all add: clean_token_def)
  have tk: "take ?n ?line = join_sp k" by (simp add: entry_line_def)
  have dr: "drop (?n + 3) ?line = join_sp v" by (simp add: entry_line_def)
  from k ck have sk: "split_prefix [] (join_sp k) = k"
    by (simp add: split_prefix_join clean_token_def)
  from v cv have sv: "split_prefix [] (join_sp v) = v"
    by (simp add: split_prefix_join clean_token_def)
  from pl have pl': "prefix_len c = 0 \<or> length (split_prefix [] (take ?n ?line)) = prefix_len c"
    by (simp only: tk sk)
  show ?thesis
    by (simp only: parseLine_match [OF f pl'] tk dr sk sv snd_conv push_all_last [OF lt v])
qed

lemma map_ok_append_Cons:
  "map_ok (xs @ (k, v) # ys) \<Longrightarrow> \<forall>x \<in> fst ` set xs. x < k"
  by (auto simp: map_ok_def sorted_wrt_append)

lemma read_back_entries:
  "ys \<noteq> [] \<Longrightarrow> map_ok (entries c @ ys) \<Longrightarrow> serializable ys \<Longrightarrow>
     \<forall>(k, v) \<in> set ys. length k = L \<and> v \<noteq> [] \<Longrightarrow> 0 < L \<Longrightarrow>
     prefix_len c = 0 \<or> prefix_len c = L \<Longrightarrow>
     foldl (\<lambda>c e. snd (parseLine (entry_line e) c)) c ys
       = c\<lparr>entries := entries c @ ys, current_prefix := fst (last ys), prefix_len := L\<rparr>"
proof (induction ys arbitrary: c)
  case Nil
  then show ?case by simp
next
  case (Cons e ys)
  obtain k v where e: "e = (k, v)" by (cases e)
  from Cons.prems(4) e have len: "length k = L" and v: "v \<noteq> []" by simp_all
  with Cons.prems(5) have k: "k \<noteq> []" by auto
  from Cons.prems(3) e have ck: "\<forall>t \<in> set k. clean_token t" and cv: "\<forall>t \<in> set v. clean_token t"
    and colon: "'':'' \<notin> set (tl k)" and ser: "serializable ys"
    by (simp_all add: serializable_def)
  from Cons.prems(6) len have pl: "prefix_len c = 0 \<or> length k = prefix_len c" by auto
  from Cons.prems(2) e have lt: "\<forall>x \<in> fst ` set (entries c). x < k"
    by (simp add: map_ok_append_Cons)
  let ?c1 = "c\<lparr>entries := entries c @ [(k, v)], current_prefix := k, prefix_len := length k\<rparr>"
  from parse_entry_line [OF k v ck cv colon pl lt]
  have step: "snd (parseLine (entry_line e) c) = ?c1" by (simp only: e)
  show ?case
  proof (cases "ys = []")
    case True
    with step len show ?thesis by (simp add: e)
  next
    case False
    from Cons.prems(2) e have ok: "map_ok (entries ?c1 @ ys)" by simp
    from Cons.prems(4) have inv: "\<forall>(k, v) \<in> set ys. length k = L \<and> v \<noteq> []" by simp
    from len have pl1: "prefix_len ?c1 = 0 \<or> prefix_len ?c1 = L" by simp
    from Cons.IH [OF False ok ser inv Cons.prems(5) pl1] step False show ?thesis
      by (simp add: e)
  qed
qed

lemma join_sp_chars: "x \<in> set (join_sp ts) \<Longrightarrow> x = CHR '' '' \<or> (\<exists>t \<in> set ts. x \<in> set t)"
  by (induction ts rule: join_sp.induct) auto

lemma entry_line_no_newline:
  assumes "\<forall>t \<in> set k. clean_token t" and "\<forall>t \<in> set v. clean_token t"
  shows "CHR 0x0A \<notin> set (entry_line (k, v))"
proof
  assume "CHR 0x0A \<in> set (entry_line (k, v))"
  then have "CHR 0x0A \<in> set (join_sp k) \<or> CHR 0x0A \<in> set (join_sp v)"
    by (auto simp: entry_line_def)
  with assms show False by (auto simp: clean_token_def dest!: join_sp_chars)
qed

lemma complete_lines_entries:
  "serializable m \<Longrightarrow>
     complete_lines (concat (map (\<lambda>e. entry_line e @ [CHR 0x0A]) m)) = map entry_line m"
proof (induction m)
  case Nil
  show ?case by simp
next
  case (Cons e m)
  obtain k v where e: "e = (k, v)" by (cases e)
  from Cons.prems e have "CHR 0x0A \<notin> set (entry_line e)" and ser: "serializable m"
    by (simp_all add: serializable_def entry_line_no_newline)
  then show ?case by (simp add: complete_lines_line Cons.IH)
qed

text \<open>
  Claim C2, as amended. Let a chain satisfy the state invariant with a positive prefix
  length, have at least one entry, have no space and no line feed in any token, and no
  lone colon as a token of a key after its first. Reading what \<open>write\<close> wrote for it, into
  any chain, gives the same entries (the same keys, each with the same successors in the
  same order) and the same prefix length; the current prefix is the key of the last line.
\<close>

theorem write_read_round_trip:
  assumes "map_ok (entries c)" and "chain_inv c" and "0 < prefix_len c"
    and "entries c \<noteq> []" and "serializable (entries c)"
  shows "read (text_of (write_chain [] c), True) c0
           = c\<lparr>current_prefix := fst (last (entries c))\<rparr>"
proof -
  let ?c0 = "c0\<lparr>entries := [], current_prefix := [], prefix_len := 0\<rparr>"
  from assms(2) have inv: "\<forall>(k, v) \<in> set (entries c). length k = prefix_len c \<and> v \<noteq> []"
    by (simp add: chain_inv_def)
  with assms(3) have "\<forall>(k, v) \<in> set (entries c). k \<noteq> [] \<and> v \<noteq> []" by auto
  then have wr: "text_of (write_chain [] c)
                    = concat (map (\<lambda>e. entry_line e @ [CHR 0x0A]) (entries c))"
    by (simp add: write_chain_def text_of_write_entries)
  from assms(1) have ok: "map_ok (entries ?c0 @ entries c)" by simp
  have pl: "prefix_len ?c0 = 0 \<or> prefix_len ?c0 = prefix_len c" by simp
  have "read (text_of (write_chain [] c), True) c0
          = foldl (\<lambda>c e. snd (parseLine (entry_line e) c)) ?c0 (entries c)"
    by (simp add: read_def read_loop_lines wr complete_lines_entries [OF assms(5)]
          foldl_map)
  also have "\<dots> = ?c0\<lparr>entries := entries ?c0 @ entries c,
                        current_prefix := fst (last (entries c)), prefix_len := prefix_len c\<rparr>"
    by (rule read_back_entries [OF assms(4) ok assms(5) inv assms(3) pl])
  also have "\<dots> = c\<lparr>current_prefix := fst (last (entries c))\<rparr>"
    by (rule chain.equality) simp_all
  finally show ?thesis .
qed

text \<open>A chain with two entries is written as two lines and read back.\<close>

theorem write_read_round_trip_witness:
  "map_ok (entries two_entries) \<and> chain_inv two_entries \<and> 0 < prefix_len two_entries
   \<and> entries two_entries \<noteq> [] \<and> serializable (entries two_entries)
   \<and> text_of (write_chain [] two_entries) = ''a b : c d'' @ [CHR 0x0A] @ ''b c : d'' @ [CHR 0x0A]
   \<and> read (text_of (write_chain [] two_entries), True) (new_chain 7)
       = \<lparr>entries = [([''a'', ''b''], [''c'', ''d'']), ([''b'', ''c''], [''d''])],
          current_prefix = [''b'', ''c''], prefix_len = 2\<rparr>"
proof -
  have h: "map_ok (entries two_entries)" "chain_inv two_entries" "0 < prefix_len two_entries"
    "entries two_entries \<noteq> []" "serializable (entries two_entries)"
    by (simp_all add: two_entries_def map_ok_def chain_inv_def serializable_def clean_token_def)
  have t: "text_of (write_chain [] two_entries)
             = ''a b : c d'' @ [CHR 0x0A] @ ''b c : d'' @ [CHR 0x0A]"
    by (simp add: write_chain_def two_entries_def)
  have "read (text_of (write_chain [] two_entries), True) (new_chain 7)
          = two_entries\<lparr>current_prefix := fst (last (entries two_entries))\<rparr>"
    by (rule write_read_round_trip [OF h])
  also have "\<dots> = \<lparr>entries = [([''a'', ''b''], [''c'', ''d'']), ([''b'', ''c''], [''d''])],
          current_prefix = [''b'', ''c''], prefix_len = 2\<rparr>"
    by (simp add: two_entries_def)
  finally show ?thesis using h t by blast
qed

text \<open>
  Claim C2 as stated fails. A fresh chain of prefix length 2 is written as the empty
  text, and \<open>read\<close> leaves the prefix length 0. The chain trained on the tokens
  \<open>a : b\<close> is written as the line \<open>a : : b\<close>, which \<open>read\<close> cuts at the first
  separator: the key \<open>a :\<close> is lost.
\<close>

theorem write_read_round_trip_counterexample:
  "prefix_len (new_chain 2) = 2
   \<and> prefix_len (read (text_of (write_chain [] (new_chain 2)), True) (new_chain 2)) = 0
   \<and> add_all [''a'', '':'', ''b''] (new_chain 2) = Inr colon_chain
   \<and> map_of (entries colon_chain) [''a'', '':''] = Some [''b'']
   \<and> map_of (entries (read (text_of (write_chain [] colon_chain), True) (new_chain 2)))
        [''a'', '':''] = None"
proof -
  have "read (text_of (write_chain [] (new_chain 2)), True) (new_chain 2)
          = \<lparr>entries = [], current_prefix = [], prefix_len = 0\<rparr>"
    by (simp add: write_chain_def new_chain_def read_def read_loop_lines)
  moreover have "text_of (write_chain [] colon_chain) = ''a : : b'' @ [CHR 0x0A]"
    by (simp add: write_chain_def colon_chain_def)
  moreover have "read (''a : : b'' @ [CHR 0x0A], True) (new_chain 2)
          = \<lparr>entries = [([''a''], ['':'', ''b''])], current_prefix = [''a''], prefix_len = 1\<rparr>"
    by (simp add: read_def read_loop_lines parseLine_def Let_def split_prefix.simps
          push_suffixes.simps new_chain_def)
  moreover have "add_all [''a'', '':'', ''b''] (new_chain 2) = Inr colon_chain"
    by (simp add: add_def new_chain_def colon_chain_def)
  ultimately show ?thesis by (simp add: colon_chain_def new_chain_def)
qed

end
